theory Spec2Isabelle
  imports Main "HOL-Library.AList"
begin

section \<open>Strings\<close>

text \<open>
  Bytes and string code units are \<^typ>\<open>char\<close>; a text is a \<^typ>\<open>string\<close>.
  For the frame parser a \<^typ>\<open>char\<close> is one byte of the stream.  For JavaScript strings a
  \<^typ>\<open>char\<close> stands for one code unit below 256; the characters the source writes
  outside ASCII are given by their UTF-8 bytes.
\<close>

abbreviation LF :: char where "LF \<equiv> CHR 0x0A"
abbreviation CR :: char where "CR \<equiv> CHR 0x0D"

text \<open>\<open>String(n)\<close> of a non-negative integer: its decimal digits.\<close>

definition digitChar :: "nat \<Rightarrow> char" where
  "digitChar d = ''0123456789'' ! d"

function showNat :: "nat \<Rightarrow> string" where
  "showNat n = (if n < 10 then [digitChar n] else showNat (n div 10) @ [digitChar (n mod 10)])"
  by pat_completeness auto
termination
  by (relation "measure id") auto

declare showNat.simps [simp del]

text \<open>\<open>parts.join(sep)\<close>.\<close>

fun join :: "string \<Rightarrow> string list \<Rightarrow> string" where
  "join sep [] = []"
| "join sep [x] = x"
| "join sep (x # y # ys) = x @ sep @ join sep (y # ys)"

text \<open>\<open>s.startsWith(p)\<close>.\<close>

definition startsWith :: "string \<Rightarrow> string \<Rightarrow> bool" where
  "startsWith s p = (take (length p) s = p)"

text \<open>\<open>xs.slice(a, b)\<close> for \<open>0 \<le> a\<close>, \<open>0 \<le> b\<close>.\<close>

definition slice :: "'a list \<Rightarrow> nat \<Rightarrow> nat \<Rightarrow> 'a list" where
  "slice xs a b = drop a (take b xs)"

text \<open>
  \<open>s.indexOf(needle)\<close>, on a string or a buffer: the first position where \<open>needle\<close>
  starts; and \<open>s.includes(needle)\<close>.
\<close>

fun indexOf :: "string \<Rightarrow> string \<Rightarrow> nat option" where
  "indexOf [] needle = (if needle = [] then Some 0 else None)"
| "indexOf (c # cs) needle =
     (if take (length needle) (c # cs) = needle then Some 0
      else map_option Suc (indexOf cs needle))"

definition includes_str :: "string \<Rightarrow> string \<Rightarrow> bool" where
  "includes_str s needle = (indexOf s needle \<noteq> None)"

section \<open>Message history and tools (schema.ts, Tool.ts)\<close>

datatype role = System | User | Assistant | Tool

datatype json =
    JNull | JBool bool | JNum int | JStr string
  | JArr "json list" | JObj "(string \<times> json) list"

text \<open>A \<open>ToolCall\<close>; \<open>function.name\<close> and \<open>function.arguments\<close> are flattened.\<close>

record toolCall =
  tc_id :: string
  tc_name :: string
  tc_arguments :: json

record message =
  role :: role
  content :: string
  thinking :: "string option"
  toolCalls :: "toolCall list option"
  toolCallId :: "string option"
  name :: "string option"

record tokenUsage =
  promptTokens :: int
  completionTokens :: int
  totalTokens :: int

record llmResponse =
  r_content :: string
  r_thinking :: "string option"
  r_toolCalls :: "toolCall list option"
  finishReason :: string
  usage :: "tokenUsage option"

record toolResult =
  success :: bool
  tr_content :: string
  error :: "string option"

text \<open>A thrown \<open>Error\<close> with its message.\<close>

datatype exn = Error string

text \<open>
  The model backend and the tools are outside the program.  Each is a function of an
  environment state \<open>'w\<close> that it may change, and each returns or throws (a call that
  never settles is not modelled): \<open>llm.generate(messages, toolSchemas)\<close> gets the history
  and whether tool schemas were passed (\<open>False\<close> for \<open>undefined\<close>); \<open>tool.execute(args)\<close>
  gets the arguments, a JSON object as \<open>ToolCall\<close> types them.
\<close>

type_synonym 'w llmClient = "message list \<Rightarrow> bool \<Rightarrow> 'w \<Rightarrow> (exn + llmResponse) \<times> 'w"
type_synonym 'w tool = "json \<Rightarrow> 'w \<Rightarrow> (exn + toolResult) \<times> 'w"

section \<open>Agent (agent/Agent.ts)\<close>

text \<open>
  The entries \<open>AgentLogger\<close> appends to the run's log file, in order.  Failures of the file
  system are not modelled, and neither is what \<open>verbose\<close> prints on the console.
\<close>

datatype logEntry =
    is_REQUEST: REQUEST "message list"
  | is_RESPONSE: RESPONSE llmResponse
  | is_TOOL_RESULT: TOOL_RESULT string json bool string

record agent =
  messages :: "message list"
  apiLastTotalTokens :: int
  skipNextTokenCheck :: bool
  log :: "logEntry list"

text \<open>
  The constructor's options.  \<open>tools\<close> is the lookup \<open>this.tools[name]\<close>, \<open>None\<close> when it
  gives \<open>undefined\<close>; a property the object inherits is an entry whose \<open>execute\<close> throws.
  \<open>jsonLength\<close> is \<open>JSON.stringify(toolCalls).length\<close>, a builtin the token estimate uses.
  \<open>maxSteps\<close> and the loop counter are integers.
\<close>

record 'w agentOpts =
  llm :: "'w llmClient"
  tools :: "string \<rightharpoonup> 'w tool"
  maxSteps :: nat
  tokenLimit :: int
  jsonLength :: "toolCall list \<Rightarrow> nat"

definition SUMMARY_MARKER :: string where
  "SUMMARY_MARKER = ''[Assistant Execution Summary]''"

text \<open>
  The constructor's history, given the resolved workspace directory: the system prompt,
  with the workspace section unless the prompt has one.
\<close>

definition newAgent :: "string \<Rightarrow> string \<Rightarrow> agent" where
  "newAgent systemPrompt workspaceDirAbs =
     \<lparr>messages =
        [\<lparr>role = System,
          content =
            (if includes_str systemPrompt ''Current Workspace'' then systemPrompt
             else systemPrompt @ [LF, LF] @ ''## Current Workspace'' @ [LF] @
                  ''You are currently working in: '' @ [CHR 0x60] @ workspaceDirAbs @
                  [CHR 0x60] @ [LF] @
                  ''All relative paths will be resolved relative to this directory.''),
          thinking = None, toolCalls = None, toolCallId = None, name = None\<rparr>],
      apiLastTotalTokens = 0, skipNextTokenCheck = False, log = []\<rparr>"

definition addUserMessage :: "string \<Rightarrow> agent \<Rightarrow> agent" where
  "addUserMessage c a =
     a\<lparr>messages := messages a @
        [\<lparr>role = User, content = c, thinking = None, toolCalls = None,
          toolCallId = None, name = None\<rparr>]\<rparr>"

text \<open>\<open>Math.floor(chars / 2.5)\<close> is \<open>2 * chars div 5\<close>.\<close>

definition estimateTokensFallback :: "(toolCall list \<Rightarrow> nat) \<Rightarrow> message list \<Rightarrow> nat" where
  "estimateTokensFallback jl ms =
     (2 * sum_list (map (\<lambda>m. length (content m)
          + (case thinking m of None \<Rightarrow> 0 | Some t \<Rightarrow> length t)
          + (case toolCalls m of None \<Rightarrow> 0 | Some cs \<Rightarrow> jl cs)) ms)) div 5"

subsection \<open>The tool loop of one assistant turn\<close>

definition toolMessage :: "string \<Rightarrow> toolCall \<Rightarrow> message" where
  "toolMessage c call =
     \<lparr>role = Tool, content = c, thinking = None, toolCalls = None,
      toolCallId = Some (tc_id call), name = Some (tc_name call)\<rparr>"





subsection \<open>Compaction of the history\<close>

text \<open>
  \<open>Math.floor(maxChars * 0.7)\<close> is \<open>maxChars * 7 div 10\<close> at the two ceilings the
  source passes (4000 and 2000).
\<close>

definition truncateForSummary :: "string \<Rightarrow> nat \<Rightarrow> string" where
  "truncateForSummary text maxChars =
     (if length text \<le> maxChars then text
      else
        (let headLen = maxChars * 7 div 10;
             tailLen = maxChars - headLen;
             head = take headLen text;
             tail = (if tailLen \<noteq> 0 then drop (length text - tailLen) text else [])
         in head @ [LF] @ ''... (truncated '' @ showNat (length text) @ '' chars) ...'' @ [LF] @ tail))"

definition MAX_SUMMARY_INPUT_CHARS :: nat where "MAX_SUMMARY_INPUT_CHARS = 40000"
definition MAX_TOOL_SNIPPET_CHARS :: nat where "MAX_TOOL_SNIPPET_CHARS = 2000"
definition MAX_ASSISTANT_SNIPPET_CHARS :: nat where "MAX_ASSISTANT_SNIPPET_CHARS = 4000"

text \<open>What one message adds to \<open>summaryContent\<close>.\<close>

definition summaryEntry :: "message \<Rightarrow> string" where
  "summaryEntry msg =
     (if role msg = Assistant then
        ''Assistant: '' @ truncateForSummary (content msg) MAX_ASSISTANT_SNIPPET_CHARS @ [LF] @
        (case toolCalls msg of
           None \<Rightarrow> []
         | Some cs \<Rightarrow>
             if cs \<noteq> [] then ''  -> Called tools: '' @ join '', '' (map tc_name cs) @ [LF]
             else [])
      else if role msg = Tool then
        ''  <- Tool returned: '' @ truncateForSummary (content msg) MAX_TOOL_SNIPPET_CHARS @ [LF]
      else [])"

text \<open>The loop \<open>for (const msg of messages)\<close> of \<open>createSummary\<close>, with its \<open>break\<close>.\<close>

fun summaryContent :: "message list \<Rightarrow> string \<Rightarrow> string" where
  "summaryContent [] acc = acc"
| "summaryContent (msg # rest) acc =
     (let acc' = acc @ summaryEntry msg in
      if MAX_SUMMARY_INPUT_CHARS \<le> length acc' then
        acc' @ [LF] @ ''...(truncated summary input to avoid context overflow)...'' @ [LF]
      else summaryContent rest acc')"

definition summaryPrompt :: "message list \<Rightarrow> nat \<Rightarrow> string" where
  "summaryPrompt ms roundNum =
     ''Please provide a concise summary of the following Agent execution process:'' @ [LF, LF] @
     summaryContent ms (''Round '' @ showNat roundNum @ '' execution process:'' @ [LF, LF]) @
     [LF, LF] @ ''Requirements:'' @ [LF] @
     ''1. Focus on what tasks were completed and which tools were called'' @ [LF] @
     ''2. Keep key execution results and important findings'' @ [LF] @
     ''3. Be concise and clear, within 1000 words'' @ [LF] @
     ''4. Use English'' @ [LF] @
     ''5. Do not include '' @ [CHR 0x22] @ ''user'' @ [CHR 0x22] @
     '' related content, only summarize the Agent'' @ [CHR 0x27] @ ''s execution process''"

definition plainMessage :: "role \<Rightarrow> string \<Rightarrow> message" where
  "plainMessage r c =
     \<lparr>role = r, content = c, thinking = None, toolCalls = None, toolCallId = None, name = None\<rparr>"

definition createSummary ::
  "'w agentOpts \<Rightarrow> message list \<Rightarrow> nat \<Rightarrow> 'w \<Rightarrow> (exn + string) \<times> 'w" where
  "createSummary opts ms roundNum w =
     (if ms = [] then (Inr [], w)
      else
        (case llm opts
                [plainMessage System
                   ''You are an assistant skilled at summarizing Agent execution processes.'',
                 plainMessage User (summaryPrompt ms roundNum)] False w of
           (Inl e, w') \<Rightarrow> (Inl e, w')
         | (Inr resp, w') \<Rightarrow> (Inr (r_content resp), w')))"

abbreviation isUser :: "message \<Rightarrow> bool" where
  "isUser m \<equiv> role m = User"

text \<open>The indices \<open>i > 0\<close> of the user messages.\<close>

definition userIdx :: "message list \<Rightarrow> nat list" where
  "userIdx ms = filter (\<lambda>i. role (ms ! i) = User \<and> 0 < i) [0..<length ms]"

definition isSummary :: "message list \<Rightarrow> bool" where
  "isSummary execMessages =
     (length execMessages = 1 \<and> role (execMessages ! 0) = Assistant \<and>
      startsWith (content (execMessages ! 0)) SUMMARY_MARKER)"

text \<open>
  The loop \<open>for (let i = 0; i < userIdx.length; i++)\<close>: the indices still to visit, the
  counter \<open>i\<close>, and \<open>newMessages\<close>.  A fault of the summary call leaves the loop.
\<close>

fun summarizeSegments ::
  "'w agentOpts \<Rightarrow> message list \<Rightarrow> nat list \<Rightarrow> nat \<Rightarrow> message list \<Rightarrow> 'w
     \<Rightarrow> (exn + message list) \<times> 'w" where
  "summarizeSegments opts ms [] i newMessages w = (Inr newMessages, w)"
| "summarizeSegments opts ms (cur # rest) i newMessages w =
     (let next = (case rest of [] \<Rightarrow> length ms | n # _ \<Rightarrow> n);
          kept = newMessages @ [ms ! cur];
          execMessages = slice ms (cur + 1) next
      in if execMessages \<noteq> [] then
           (if isSummary execMessages then
              summarizeSegments opts ms rest (i + 1) (kept @ [execMessages ! 0]) w
            else
              (case createSummary opts execMessages (i + 1) w of
                 (Inl e, w') \<Rightarrow> (Inl e, w')
               | (Inr summaryText, w') \<Rightarrow>
                   summarizeSegments opts ms rest (i + 1)
                     (if summaryText \<noteq> [] then
                        kept @ [plainMessage Assistant (SUMMARY_MARKER @ [LF, LF] @ summaryText)]
                      else kept) w'))
         else summarizeSegments opts ms rest (i + 1) kept w)"

definition shouldSummarize :: "'w agentOpts \<Rightarrow> agent \<Rightarrow> bool" where
  "shouldSummarize opts a =
     (tokenLimit opts < int (estimateTokensFallback (jsonLength opts) (messages a)) \<or>
      tokenLimit opts < apiLastTotalTokens a)"

definition summarizeMessagesIfNeeded ::
  "'w agentOpts \<Rightarrow> agent \<Rightarrow> 'w \<Rightarrow> (exn + unit) \<times> agent \<times> 'w" where
  "summarizeMessagesIfNeeded opts a w =
     (if skipNextTokenCheck a then (Inr (), a\<lparr>skipNextTokenCheck := False\<rparr>, w)
      else if \<not> shouldSummarize opts a then (Inr (), a, w)
      else if userIdx (messages a) = [] then (Inr (), a, w)
      else
        (case summarizeSegments opts (messages a) (userIdx (messages a)) 0 [messages a ! 0] w of
           (Inl e, w') \<Rightarrow> (Inl e, a, w')
         | (Inr newMessages, w') \<Rightarrow>
             (Inr (), a\<lparr>messages := newMessages, skipNextTokenCheck := True\<rparr>, w')))"

subsection \<open>The execution loop\<close>

definition assistantMessage :: "llmResponse \<Rightarrow> message" where
  "assistantMessage response =
     \<lparr>role = Assistant, content = r_content response, thinking = r_thinking response,
      toolCalls = r_toolCalls response, toolCallId = None, name = None\<rparr>"




subsection \<open>Reading the log and the history\<close>






subsection \<open>Stub backends and tools for the scenarios\<close>

definition echoTool :: "unit tool" where
  "echoTool args w = (Inr \<lparr>success = True, tr_content = ''ok'', error = None\<rparr>, w)"

definition faultyTool :: "unit tool" where
  "faultyTool args w = (Inl (Error ''boom''), w)"

definition demoTools :: "string \<rightharpoonup> unit tool" where
  "demoTools = [''echo'' \<mapsto> echoTool, ''faulty'' \<mapsto> faultyTool]"



text \<open>A backend that answers every request with the given text and requests no call.\<close>

definition answeringLlm :: "string \<Rightarrow> unit llmClient" where
  "answeringLlm txt ms withTools w =
     (Inr \<lparr>r_content = txt, r_thinking = None, r_toolCalls = None,
           finishReason = ''stop'', usage = None\<rparr>, w)"

definition demoOpts :: "unit llmClient \<Rightarrow> nat \<Rightarrow> int \<Rightarrow> unit agentOpts" where
  "demoOpts backend steps limit =
     \<lparr>llm = backend, tools = demoTools, maxSteps = steps, tokenLimit = limit,
      jsonLength = (\<lambda>cs. 2)\<rparr>"

definition demoAgent :: "message list \<Rightarrow> bool \<Rightarrow> agent" where
  "demoAgent ms skip =
     \<lparr>messages = ms, apiLastTotalTokens = 0, skipNextTokenCheck = skip, log = []\<rparr>"

definition demoHistory :: "message list" where
  "demoHistory =
     [plainMessage System ''sys'', plainMessage User ''hi'',
      plainMessage Assistant ''a1'', plainMessage Tool ''t1'']"

definition demoCompacted :: "message list" where
  "demoCompacted =
     [plainMessage System ''sys'', plainMessage User ''hi'',
      plainMessage Assistant (SUMMARY_MARKER @ [LF, LF] @ ''did things'')]"


section \<open>Content-Length framing (utils/jsonRpcStdio.ts, tools/mcpLoader.ts)\<close>

text \<open>
  A buffer is the list of its bytes.  A message is the bytes of its JSON text, the
  argument of \<open>JSON.parse\<close> and the result of \<open>JSON.stringify\<close>; both builtins are outside
  the model, and so is what the connection does with a parsed message.
\<close>

definition CRLFCRLF :: string where
  "CRLFCRLF = [CR, LF, CR, LF]"

text \<open>
  The regular expression \<open>/content-length:\s*(\d+)/i\<close> on the decoded header.  Without
  the \<open>u\<close> flag only ASCII letters match case-insensitively; \<open>\s\<close> matches the white
  space and line terminators of ECMAScript, here by their UTF-8 bytes; \<open>\d\<close> is an ASCII
  digit.
\<close>

definition toLower :: "char \<Rightarrow> char" where
  "toLower c =
     (case map_of (zip ''ABCDEFGHIJKLMNOPQRSTUVWXYZ'' ''abcdefghijklmnopqrstuvwxyz'') c of
        Some l \<Rightarrow> l
      | None \<Rightarrow> c)"

definition isDigit :: "char \<Rightarrow> bool" where
  "isDigit c = (c \<in> set ''0123456789'')"

definition whiteSpaces :: "string list" where
  "whiteSpaces =
     [[CHR 0x09], [CHR 0x0A], [CHR 0x0B], [CHR 0x0C], [CHR 0x0D], [CHR 0x20],
      [CHR 0xC2, CHR 0xA0], [CHR 0xE1, CHR 0x9A, CHR 0x80],
      [CHR 0xE2, CHR 0x80, CHR 0x80], [CHR 0xE2, CHR 0x80, CHR 0x81],
      [CHR 0xE2, CHR 0x80, CHR 0x82], [CHR 0xE2, CHR 0x80, CHR 0x83],
      [CHR 0xE2, CHR 0x80, CHR 0x84], [CHR 0xE2, CHR 0x80, CHR 0x85],
      [CHR 0xE2, CHR 0x80, CHR 0x86], [CHR 0xE2, CHR 0x80, CHR 0x87],
      [CHR 0xE2, CHR 0x80, CHR 0x88], [CHR 0xE2, CHR 0x80, CHR 0x89],
      [CHR 0xE2, CHR 0x80, CHR 0x8A], [CHR 0xE2, CHR 0x80, CHR 0xA8],
      [CHR 0xE2, CHR 0x80, CHR 0xA9], [CHR 0xE2, CHR 0x80, CHR 0xAF],
      [CHR 0xE2, CHR 0x81, CHR 0x9F], [CHR 0xE3, CHR 0x80, CHR 0x80],
      [CHR 0xEF, CHR 0xBB, CHR 0xBF]]"

text \<open>The length of the white space a text starts with, if it starts with one.\<close>

definition leadingSpace :: "string \<Rightarrow> nat option" where
  "leadingSpace s = map_option length (find (\<lambda>p. take (length p) s = p) whiteSpaces)"

function skipSpaces :: "string \<Rightarrow> string" where
  "skipSpaces s =
     (case leadingSpace s of
        None \<Rightarrow> s
      | Some n \<Rightarrow> if n = 0 \<or> length s < n then s else skipSpaces (drop n s))"
  by pat_completeness auto
termination
  by (relation "measure length") auto

declare skipSpaces.simps [simp del]

text \<open>A match that starts at the head of the text: the digits of the group.\<close>

definition matchContentLength :: "string \<Rightarrow> string option" where
  "matchContentLength s =
     (if map toLower (take 15 s) = ''content-length:'' then
        (let ds = takeWhile isDigit (skipSpaces (drop 15 s)) in
         if ds \<noteq> [] then Some ds else None)
      else None)"

text \<open>\<open>exec\<close>: the leftmost match.\<close>

fun execContentLength :: "string \<Rightarrow> string option" where
  "execContentLength [] = None"
| "execContentLength (c # cs) =
     (case matchContentLength (c # cs) of
        Some ds \<Rightarrow> Some ds
      | None \<Rightarrow> execContentLength cs)"

text \<open>\<open>Number(m[1])\<close> of a digit string.\<close>

definition digitValue :: "char \<Rightarrow> nat" where
  "digitValue c = of_char c - 48"

definition readNat :: "string \<Rightarrow> nat" where
  "readNat ds = foldl (\<lambda>n c. 10 * n + digitValue c) 0 ds"

text \<open>
  The frame \<open>send\<close> and \<open>request\<close> write:
  \<open>Content-Length: ${Buffer.byteLength(json, "utf-8")}\r\n\r\n${json}\<close>.
\<close>

definition frame :: "string \<Rightarrow> string" where
  "frame json = ''Content-Length: '' @ showNat (length json) @ CRLFCRLF @ json"

subsection \<open>The client's parser (JsonRpcStdioClient.onData)\<close>

text \<open>
  The \<open>while (true)\<close> loop on the buffer: the bodies handed to \<open>JSON.parse\<close>, in order,
  and the buffer that is left.
\<close>

function clientDrain :: "string \<Rightarrow> string list \<times> string" where
  "clientDrain buffer =
     (case indexOf buffer CRLFCRLF of
        None \<Rightarrow> ([], buffer)
      | Some headerEnd \<Rightarrow>
          (case execContentLength (take headerEnd buffer) of
             None \<Rightarrow> clientDrain (drop (headerEnd + 4) buffer)
           | Some ds \<Rightarrow>
               (let bodyStart = headerEnd + 4;
                    bodyEnd = bodyStart + readNat ds
                in if length buffer < bodyEnd then ([], buffer)
                   else
                     (case clientDrain (drop bodyEnd buffer) of
                        (bodies, rest) \<Rightarrow> (slice buffer bodyStart bodyEnd # bodies, rest)))))"
  by pat_completeness auto

lemma indexOf_bound: "indexOf buffer needle = Some i \<Longrightarrow> i + length needle \<le> length buffer"
proof (induction buffer arbitrary: i)
  case Nil
  then show ?case by (simp split: if_splits)
next
  case (Cons c cs)
  show ?case
  proof (cases "take (length needle) (c # cs) = needle")
    case True
    then have "length (take (length needle) (c # cs)) = length needle"
      by simp
    then have "length needle \<le> length (c # cs)"
      by (simp only: length_take)
    then show ?thesis using Cons.prems True by simp
  next
    case False
    then obtain j where "indexOf cs needle = Some j" "i = Suc j"
      using Cons.prems by auto
    then show ?thesis using Cons.IH by fastforce
  qed
qed

termination clientDrain
proof (relation "measure length")
  show "wf (measure length)" by simp
next
  fix buffer headerEnd
  assume "indexOf buffer CRLFCRLF = Some headerEnd"
  then have "headerEnd + 4 \<le> length buffer"
    using indexOf_bound[of buffer CRLFCRLF headerEnd] by (simp add: CRLFCRLF_def)
  then show "(drop (headerEnd + 4) buffer, buffer) \<in> measure length" by simp
next
  fix buffer :: string and headerEnd ds bodyStart bodyEnd
  assume "bodyStart = headerEnd + 4" "bodyEnd = bodyStart + readNat ds" "\<not> length buffer < bodyEnd"
  then show "(drop bodyEnd buffer, buffer) \<in> measure length" by simp
qed

declare clientDrain.simps [simp del]

definition clientOnData :: "string \<Rightarrow> string \<Rightarrow> string list \<times> string" where
  "clientOnData buffer chunk = clientDrain (buffer @ chunk)"

text \<open>A sequence of \<open>data\<close> events.\<close>

fun clientFeed :: "string \<Rightarrow> string list \<Rightarrow> string list \<times> string" where
  "clientFeed buffer [] = ([], buffer)"
| "clientFeed buffer (chunk # chunks) =
     (case clientOnData buffer chunk of
        (bodies, buffer') \<Rightarrow>
          (case clientFeed buffer' chunks of
             (bodies', buffer'') \<Rightarrow> (bodies @ bodies', buffer'')))"

subsection \<open>The server's parser (JsonRpcStdioConnection.onData)\<close>

definition MAX_CONTENT_LENGTH_BYTES :: nat where
  "MAX_CONTENT_LENGTH_BYTES = 10 * 1024 * 1024"

definition MAX_BUFFER_BYTES :: nat where
  "MAX_BUFFER_BYTES = 20 * 1024 * 1024"

text \<open>A body handed to \<open>JSON.parse\<close>, or a call of \<open>onError\<close> with its message.\<close>

datatype connEvent = Frame string | OnError string

function serverDrain :: "string \<Rightarrow> connEvent list \<times> string" where
  "serverDrain buffer =
     (case indexOf buffer CRLFCRLF of
        None \<Rightarrow> ([], buffer)
      | Some headerEnd \<Rightarrow>
          (case execContentLength (take headerEnd buffer) of
             None \<Rightarrow> serverDrain (drop (headerEnd + 4) buffer)
           | Some ds \<Rightarrow>
               if MAX_CONTENT_LENGTH_BYTES < readNat ds then
                 (case serverDrain (drop (headerEnd + 4) buffer) of
                    (events, rest) \<Rightarrow> (OnError (''Invalid Content-Length: '' @ ds) # events, rest))
               else
                 (let bodyStart = headerEnd + 4;
                      bodyEnd = bodyStart + readNat ds
                  in if length buffer < bodyEnd then ([], buffer)
                     else
                       (case serverDrain (drop bodyEnd buffer) of
                          (events, rest) \<Rightarrow>
                            (Frame (slice buffer bodyStart bodyEnd) # events, rest)))))"
  by pat_completeness auto

termination serverDrain
proof (relation "measure length")
  show "wf (measure length)" by simp
next
  fix buffer headerEnd
  assume "indexOf buffer CRLFCRLF = Some headerEnd"
  then have "headerEnd + 4 \<le> length buffer"
    using indexOf_bound[of buffer CRLFCRLF headerEnd] by (simp add: CRLFCRLF_def)
  then show "(drop (headerEnd + 4) buffer, buffer) \<in> measure length" by simp
next
  fix buffer headerEnd
  assume "indexOf buffer CRLFCRLF = Some headerEnd"
  then have "headerEnd + 4 \<le> length buffer"
    using indexOf_bound[of buffer CRLFCRLF headerEnd] by (simp add: CRLFCRLF_def)
  then show "(drop (headerEnd + 4) buffer, buffer) \<in> measure length" by simp
next
  fix buffer :: string and headerEnd ds bodyStart bodyEnd
  assume "bodyStart = headerEnd + 4" "bodyEnd = bodyStart + readNat ds" "\<not> length buffer < bodyEnd"
  then show "(drop bodyEnd buffer, buffer) \<in> measure length" by simp
qed

declare serverDrain.simps [simp del]

definition serverOnData :: "string \<Rightarrow> string \<Rightarrow> connEvent list \<times> string" where
  "serverOnData buffer chunk =
     (let buffer' = buffer @ chunk in
      if MAX_BUFFER_BYTES < length buffer' then
        ([OnError (''JSON-RPC buffer exceeded '' @ showNat MAX_BUFFER_BYTES @
                   '' bytes; dropping buffer'')], [])
      else serverDrain buffer')"

fun serverFeed :: "string \<Rightarrow> string list \<Rightarrow> connEvent list \<times> string" where
  "serverFeed buffer [] = ([], buffer)"
| "serverFeed buffer (chunk # chunks) =
     (case serverOnData buffer chunk of
        (events, buffer') \<Rightarrow>
          (case serverFeed buffer' chunks of
             (events', buffer'') \<Rightarrow> (events @ events', buffer'')))"

text \<open>No delivery of the sequence makes the buffer exceed the ceiling.\<close>

fun withinCeiling :: "string \<Rightarrow> string list \<Rightarrow> bool" where
  "withinCeiling buffer [] = True"
| "withinCeiling buffer (chunk # chunks) =
     (length (buffer @ chunk) \<le> MAX_BUFFER_BYTES \<and>
      withinCeiling (snd (serverOnData buffer chunk)) chunks)"

text \<open>The header line of a frame whose body has \<open>n\<close> bytes.\<close>

definition header :: "nat \<Rightarrow> string" where
  "header n = ''Content-Length: '' @ showNat n"

subsection \<open>Streams for the scenarios\<close>

text \<open>Two frames delivered in three chunks that cut the first header and the second body.\<close>

definition demoBodies :: "string list" where
  "demoBodies = [''{}'', ''[1,2]'']"

definition demoChunks :: "string list" where
  "demoChunks =
     [take 7 (frame ''{}''),
      drop 7 (frame ''{}'') @ take 20 (frame ''[1,2]''),
      drop 20 (frame ''[1,2]'')]"

text \<open>The JSON string literal of a text that needs no escape.\<close>

definition jsonStr :: "string \<Rightarrow> string" where
  "jsonStr s = [CHR 0x22] @ s @ [CHR 0x22]"

text \<open>
  A request \<open>{"jsonrpc":"2.0","id":1,"method":"prompt","params":"aaa..."}\<close> whose
  parameter alone has \<open>MAX_CONTENT_LENGTH_BYTES\<close> bytes.
\<close>

definition bigMessage :: string where
  "bigMessage =
     (''{'' @ jsonStr ''jsonrpc'' @ '':'' @ jsonStr ''2.0'' @ '','' @ jsonStr ''id'' @ '':1,'' @
      jsonStr ''method'' @ '':'' @ jsonStr ''prompt'' @ '','' @ jsonStr ''params'' @ '':'' @
      [CHR 0x22]) @ replicate MAX_CONTENT_LENGTH_BYTES (CHR ''a'') @ ([CHR 0x22] @ ''}'')"

text \<open>A peer that never sends a header end: 321 chunks of 64 KiB of \<open>x\<close>.\<close>

definition floodChunks :: "string list" where
  "floodChunks = replicate 321 (replicate 65536 (CHR ''x''))"

section \<open>ACP turns (acp/MiniMaxACPAgent.ts, acp/updates.ts)\<close>

text \<open>The updates \<open>send\<close> passes to \<open>conn.sessionUpdate\<close>, as built by \<open>updates.ts\<close>.\<close>

datatype toolStatus = StatusCompleted | StatusFailed

datatype update =
    Update_agent_message string
  | Update_agent_thought string
  | Start_tool_call string string json
  | Update_tool_call string toolStatus string

text \<open>
  A \<open>SessionState\<close>: the messages of the session's agent, the cancellation mark, and the
  updates sent for the session so far.
\<close>

record sessionState =
  s_messages :: "message list"
  cancelled :: bool
  sent :: "update list"

text \<open>
  While \<open>runTurn\<close> is suspended in \<open>llm.generate\<close> or \<open>tool.execute\<close> the connection may
  dispatch a \<open>cancel\<close> for the session, which sets the mark.  \<open>cancelArrives w\<close> tells
  whether that happened during the suspension that ended in the environment state \<open>w\<close>.
  A \<open>cancel\<close> dispatched during a suspension in \<open>send\<close> is read at the same place, the head
  of the next iteration.  \<open>stringOf\<close> is the builtin \<open>String(v)\<close> of the label.
\<close>

record 'w acpOpts =
  acp_llm :: "'w llmClient"
  acp_tools :: "string \<rightharpoonup> 'w tool"
  acp_maxSteps :: nat
  cancelArrives :: "'w \<Rightarrow> bool"
  stringOf :: "json \<Rightarrow> string"

definition wrench :: string where "wrench = [CHR 0xF0, CHR 0x9F, CHR 0x94, CHR 0xA7]"
definition checkMark :: string where "checkMark = [CHR 0xE2, CHR 0x9C, CHR 0x85]"
definition crossMark :: string where "crossMark = [CHR 0xE2, CHR 0x9D, CHR 0x8C]"

text \<open>\<open>Object.entries(args).slice(0, 2)\<close>, each as \<open>k=String(v).slice(0, 50)\<close>.\<close>

definition argsPreview :: "(json \<Rightarrow> string) \<Rightarrow> json \<Rightarrow> string" where
  "argsPreview str args =
     (case args of
        JObj kvs \<Rightarrow> join '', '' (map (\<lambda>(k, v). k @ ''='' @ take 50 (str v)) (take 2 kvs))
      | JArr vs \<Rightarrow>
          join '', '' (map (\<lambda>(i, v). showNat i @ ''='' @ take 50 (str v))
                         (take 2 (zip [0..<length vs] vs)))
      | _ \<Rightarrow> [])"

definition toolLabel :: "(json \<Rightarrow> string) \<Rightarrow> string \<Rightarrow> json \<Rightarrow> string" where
  "toolLabel str nm args =
     (let preview = argsPreview str args in
      if preview \<noteq> [] then wrench @ '' '' @ nm @ ''('' @ preview @ '')''
      else wrench @ '' '' @ nm @ ''()'')"

text \<open>The mark after a suspension.\<close>

definition resumed :: "'w acpOpts \<Rightarrow> 'w \<Rightarrow> sessionState \<Rightarrow> sessionState" where
  "resumed opts w s = s\<lparr>cancelled := cancelled s \<or> cancelArrives opts w\<rparr>"

text \<open>The status and text of one call, and the environment after it.\<close>

definition acpExecute ::
  "'w acpOpts \<Rightarrow> toolCall \<Rightarrow> sessionState \<Rightarrow> 'w \<Rightarrow> (toolStatus \<times> string) \<times> sessionState \<times> 'w" where
  "acpExecute opts call s w =
     (case acp_tools opts (tc_name call) of
        None \<Rightarrow> ((StatusFailed, crossMark @ '' Unknown tool: '' @ tc_name call), s, w)
      | Some t \<Rightarrow>
          (case t (tc_arguments call) w of
             (Inr result, w') \<Rightarrow>
               ((if success result then StatusCompleted else StatusFailed,
                 if success result then checkMark @ '' '' @ tr_content result
                 else crossMark @ '' '' @
                      (case error result of Some e \<Rightarrow> e | None \<Rightarrow> ''Tool execution failed'')),
                resumed opts w' s, w')
           | (Inl (Error msg), w') \<Rightarrow>
               ((StatusFailed, crossMark @ '' Tool error: '' @ msg), resumed opts w' s, w')))"

text \<open>One pass of the body of \<open>for (const call of resp.toolCalls)\<close>.\<close>

definition acpToolCall ::
  "'w acpOpts \<Rightarrow> toolCall \<Rightarrow> sessionState \<Rightarrow> 'w \<Rightarrow> sessionState \<times> 'w" where
  "acpToolCall opts call s w =
     (let s1 = s\<lparr>sent := sent s @
                 [Start_tool_call (tc_id call)
                    (toolLabel (stringOf opts) (tc_name call) (tc_arguments call))
                    (tc_arguments call)]\<rparr>
      in case acpExecute opts call s1 w of
           ((st, text), s2, w') \<Rightarrow>
             (s2\<lparr>sent := sent s2 @ [Update_tool_call (tc_id call) st text],
                 s_messages := s_messages s2 @ [toolMessage text call]\<rparr>, w'))"

fun acpToolCalls ::
  "'w acpOpts \<Rightarrow> toolCall list \<Rightarrow> sessionState \<Rightarrow> 'w \<Rightarrow> sessionState \<times> 'w" where
  "acpToolCalls opts [] s w = (s, w)"
| "acpToolCalls opts (call # calls) s w =
     (case acpToolCall opts call s w of (s', w') \<Rightarrow> acpToolCalls opts calls s' w')"

text \<open>The session after a response: the two optional updates, then the assistant turn.\<close>

definition afterResponse :: "'w acpOpts \<Rightarrow> llmResponse \<Rightarrow> 'w \<Rightarrow> sessionState \<Rightarrow> sessionState" where
  "afterResponse opts resp w s =
     (let s1 = resumed opts w s;
          s2 = (case r_thinking resp of
                  Some t \<Rightarrow> if t \<noteq> [] then s1\<lparr>sent := sent s1 @ [Update_agent_thought t]\<rparr> else s1
                | None \<Rightarrow> s1);
          s3 = (if r_content resp \<noteq> [] then
                  s2\<lparr>sent := sent s2 @ [Update_agent_message (r_content resp)]\<rparr>
                else s2)
      in s3\<lparr>s_messages := s_messages s3 @ [assistantMessage resp]\<rparr>)"

text \<open>
  \<open>runTurn\<close>: the loop \<open>for (let i = 0; i < maxSteps; i++)\<close> by the number of steps left; the
  result is the stop reason.
\<close>

fun runTurnSteps :: "'w acpOpts \<Rightarrow> nat \<Rightarrow> sessionState \<Rightarrow> 'w \<Rightarrow> string \<times> sessionState \<times> 'w" where
  "runTurnSteps opts 0 s w = (''max_turn_requests'', s, w)"
| "runTurnSteps opts (Suc n) s w =
     (if cancelled s then (''cancelled'', s, w)
      else
        (case acp_llm opts (s_messages s) True w of
           (Inl (Error msg), w1) \<Rightarrow>
             (''refusal'',
              (resumed opts w1 s)\<lparr>sent := sent s @ [Update_agent_message (''Error: '' @ msg)]\<rparr>, w1)
         | (Inr resp, w1) \<Rightarrow>
             (let s1 = afterResponse opts resp w1 s in
              case r_toolCalls resp of
                None \<Rightarrow> (''end_turn'', s1, w1)
              | Some calls \<Rightarrow>
                  if calls = [] then (''end_turn'', s1, w1)
                  else (case acpToolCalls opts calls s1 w1 of
                          (s2, w2) \<Rightarrow> runTurnSteps opts n s2 w2))))"

definition runTurn :: "'w acpOpts \<Rightarrow> sessionState \<Rightarrow> 'w \<Rightarrow> string \<times> sessionState \<times> 'w" where
  "runTurn opts s w = runTurnSteps opts (acp_maxSteps opts) s w"

text \<open>
  \<open>prompt\<close> and \<open>cancel\<close> on the session table.  A prompt block is its \<open>text\<close> when that
  is a string.
\<close>

definition prompt ::
  "'w acpOpts \<Rightarrow> string \<Rightarrow> string option list \<Rightarrow> (string \<rightharpoonup> sessionState) \<Rightarrow> 'w
     \<Rightarrow> string \<times> (string \<rightharpoonup> sessionState) \<times> 'w" where
  "prompt opts sessionId blocks sessions w =
     (case sessions sessionId of
        None \<Rightarrow> (''refusal'', sessions, w)
      | Some state \<Rightarrow>
          (let userText = join [LF] (map (\<lambda>b. case b of Some t \<Rightarrow> t | None \<Rightarrow> []) blocks);
               state' = state\<lparr>cancelled := False,
                              s_messages := s_messages state @ [plainMessage User userText]\<rparr>
           in case runTurn opts state' w of
                (stopReason, state'', w') \<Rightarrow> (stopReason, sessions(sessionId \<mapsto> state''), w')))"

definition cancel :: "string \<Rightarrow> (string \<rightharpoonup> sessionState) \<Rightarrow> (string \<rightharpoonup> sessionState)" where
  "cancel sessionId sessions =
     (case sessions sessionId of
        None \<Rightarrow> sessions
      | Some state \<Rightarrow> sessions(sessionId \<mapsto> state\<lparr>cancelled := True\<rparr>))"

subsection \<open>A session for the scenarios\<close>







section \<open>Background shells (tools/bashTool.ts)\<close>

text \<open>
  Texts here are JavaScript strings, the output of a process is taken as decoded, and a
  \<^typ>\<open>char\<close> is a code unit below 256.  \<open>startTime\<close> is the clock's value, \<open>signals\<close> is
  what \<open>proc.kill\<close> was called with, in order.
\<close>

datatype shellStatus = Running | Completed | Failed | Terminated

datatype signal = SIGTERM | SIGKILL

record backgroundShell =
  bashId :: string
  command :: string
  startTime :: nat
  status :: shellStatus
  exitCode :: "int option"
  outputLines :: "string list"
  lastReadIndex :: nat
  signals :: "signal list"

text \<open>
  \<open>BackgroundShellManager.shells\<close>, a \<open>Map\<close>: keys in insertion order.  \<open>add\<close> is
  \<^const>\<open>AList.update\<close>, \<open>get\<close> is \<^const>\<open>map_of\<close>, \<open>listIds\<close> is \<open>map fst\<close> and \<open>remove\<close> is
  \<^const>\<open>AList.delete\<close>.
\<close>

type_synonym shells = "(string \<times> backgroundShell) list"

text \<open>\<open>text.split(/\r?\n/)\<close>: cut at every line feed, without the carriage return before it.\<close>

definition stripCR :: "string \<Rightarrow> string" where
  "stripCR s = (if s \<noteq> [] \<and> last s = CR then butlast s else s)"

fun splitNewlines :: "string \<Rightarrow> string \<Rightarrow> string list" where
  "splitNewlines cur [] = [cur]"
| "splitNewlines cur (c # cs) =
     (if c = LF then stripCR cur # splitNewlines [] cs else splitNewlines (cur @ [c]) cs)"

definition splitLines :: "string \<Rightarrow> string list" where
  "splitLines chunk = filter (\<lambda>l. l \<noteq> []) (splitNewlines [] chunk)"

text \<open>The events of the child process: \<open>data\<close> on either stream, and \<open>close\<close> with its code.\<close>

datatype procEvent = Stdout string | Stderr string | Close "int option"

fun onEvent :: "procEvent \<Rightarrow> backgroundShell \<Rightarrow> backgroundShell" where
  "onEvent (Stdout chunk) shell = shell\<lparr>outputLines := outputLines shell @ splitLines chunk\<rparr>"
| "onEvent (Stderr chunk) shell = shell\<lparr>outputLines := outputLines shell @ splitLines chunk\<rparr>"
| "onEvent (Close code) shell =
     shell\<lparr>exitCode := code, status := (if code = Some 0 then Completed else Failed)\<rparr>"

text \<open>An event of the process of the shell registered under an identifier.\<close>

definition deliver :: "string \<times> procEvent \<Rightarrow> shells \<Rightarrow> shells" where
  "deliver ev shells =
     (case map_of shells (fst ev) of
        None \<Rightarrow> shells
      | Some shell \<Rightarrow> AList.update (fst ev) (onEvent (snd ev) shell) shells)"

text \<open>\<open>String(n)\<close> of an integer.\<close>

definition showInt :: "int \<Rightarrow> string" where
  "showInt i = (if i < 0 then ''-'' @ showNat (nat (- i)) else showNat (nat i))"

text \<open>\<open>s.trim()\<close>: white space and line terminators off both ends.\<close>

definition isJsSpace :: "char \<Rightarrow> bool" where
  "isJsSpace c =
     (c \<in> set [CHR 0x09, CHR 0x0A, CHR 0x0B, CHR 0x0C, CHR 0x0D, CHR 0x20, CHR 0xA0])"

definition trim :: "string \<Rightarrow> string" where
  "trim s = rev (dropWhile isJsSpace (rev (dropWhile isJsSpace s)))"

definition formatBashOutput :: "string \<Rightarrow> string \<Rightarrow> int \<Rightarrow> string option \<Rightarrow> string" where
  "formatBashOutput stdout stderr code bashIdOpt =
     (let out =
            stdout @
            (if stderr \<noteq> [] then [LF] @ ''[stderr]:'' @ [LF] @ stderr else []) @
            (case bashIdOpt of
               Some b \<Rightarrow> if b \<noteq> [] then [LF] @ ''[bash_id]:'' @ [LF] @ b else []
             | None \<Rightarrow> []) @
            (if code \<noteq> 0 then [LF] @ ''[exit_code]:'' @ [LF] @ showInt code else [])
      in if trim out \<noteq> [] then trim out else ''(no output)'')"

text \<open>\<open>asString\<close>, and whether a value counts as true.\<close>

definition asString :: "json option \<Rightarrow> string \<Rightarrow> exn + string" where
  "asString v nm =
     (case v of
        Some (JStr s) \<Rightarrow> Inr s
      | _ \<Rightarrow> Inl (Error (''Expected '' @ [CHR 0x27] @ nm @ [CHR 0x27] @ '' to be string'')))"

fun truthy :: "json option \<Rightarrow> bool" where
  "truthy None = False"
| "truthy (Some JNull) = False"
| "truthy (Some (JBool b)) = b"
| "truthy (Some (JNum n)) = (n \<noteq> 0)"
| "truthy (Some (JStr s)) = (s \<noteq> [])"
| "truthy (Some (JArr vs)) = True"
| "truthy (Some (JObj kvs)) = True"

definition failure :: "string \<Rightarrow> toolResult" where
  "failure e = \<lparr>success = False, tr_content = [], error = Some e\<rparr>"

definition notFound :: "string \<Rightarrow> shells \<Rightarrow> toolResult" where
  "notFound bid shells =
     failure (''Shell not found: '' @ bid @ ''. Available: '' @
              (if join '', '' (map fst shells) \<noteq> [] then join '', '' (map fst shells)
               else ''none''))"

subsection \<open>bash with \<open>run_in_background\<close>\<close>

text \<open>
  The background branch of \<open>BashTool.execute\<close>, given the identifier \<open>genId\<close> drew and the
  clock's value.  The foreground branch is not modelled.
\<close>

definition bashStart :: "string \<Rightarrow> string \<Rightarrow> nat \<Rightarrow> shells \<Rightarrow> toolResult \<times> shells" where
  "bashStart bid cmd now shells =
     (\<lparr>success = True,
       tr_content =
         formatBashOutput
           (''Background command started with ID: '' @ bid @ [LF, LF] @
            ''Command: '' @ cmd @ [LF] @ ''Bash ID: '' @ bid) [] 0 (Some bid),
       error = None\<rparr>,
      AList.update bid
        \<lparr>bashId = bid, command = cmd, startTime = now, status = Running, exitCode = None,
         outputLines = [], lastReadIndex = 0, signals = []\<rparr> shells)"

subsection \<open>bash_output\<close>

text \<open>
  \<open>compileRe\<close> is the builtin \<open>new RegExp(s)\<close> with \<open>re.test\<close>: \<open>None\<close> when the
  constructor throws.
\<close>

definition applyFilter ::
  "(string \<Rightarrow> (string \<Rightarrow> bool) option) \<Rightarrow> string option \<Rightarrow> string list \<Rightarrow> string list" where
  "applyFilter compileRe filterStr newLines =
     (case filterStr of
        None \<Rightarrow> newLines
      | Some f \<Rightarrow>
          if f \<noteq> [] then
            (case compileRe f of
               Some re \<Rightarrow> filter re newLines
             | None \<Rightarrow> newLines)
          else newLines)"

definition bashOutput ::
  "(string \<Rightarrow> (string \<Rightarrow> bool) option) \<Rightarrow> (string \<times> json) list \<Rightarrow> shells
     \<Rightarrow> toolResult \<times> shells" where
  "bashOutput compileRe args shells =
     (case asString (map_of args ''bash_id'') ''bash_id'' of
        Inl (Error m) \<Rightarrow> (failure (''Failed to get bash output: '' @ m), shells)
      | Inr bid \<Rightarrow>
          (case (if truthy (map_of args ''filter_str'')
                 then map_sum id Some (asString (map_of args ''filter_str'') ''filter_str'')
                 else Inr None) of
             Inl (Error m) \<Rightarrow> (failure (''Failed to get bash output: '' @ m), shells)
           | Inr filterStr \<Rightarrow>
               (case map_of shells bid of
                  None \<Rightarrow> (notFound bid shells, shells)
                | Some shell \<Rightarrow>
                    (let newLines = drop (lastReadIndex shell) (outputLines shell);
                         shell' = shell\<lparr>lastReadIndex := length (outputLines shell)\<rparr>;
                         stdout = join [LF] (applyFilter compileRe filterStr newLines)
                     in (\<lparr>success = True,
                          tr_content =
                            formatBashOutput stdout []
                              (case exitCode shell of Some c \<Rightarrow> c | None \<Rightarrow> 0) (Some bid),
                          error = None\<rparr>,
                         AList.update bid shell' shells)))))"

subsection \<open>bash_kill\<close>

text \<open>
  \<open>graceEvents\<close> are the events of child processes that the event loop delivers during the
  500 ms of \<open>await new Promise((r) => setTimeout(r, 500))\<close>; the length of the wait itself
  is not modelled.  The second component of the result is the shell object as
  \<open>execute\<close> leaves it, which the manager no longer holds.
\<close>

definition bashKill ::
  "(string \<times> procEvent) list \<Rightarrow> (string \<times> json) list \<Rightarrow> shells
     \<Rightarrow> toolResult \<times> backgroundShell option \<times> shells" where
  "bashKill graceEvents args shells =
     (case asString (map_of args ''bash_id'') ''bash_id'' of
        Inl (Error m) \<Rightarrow> (failure (''Failed to terminate bash shell: '' @ m), None, shells)
      | Inr bid \<Rightarrow>
          (case map_of shells bid of
             None \<Rightarrow> (notFound bid shells, None, shells)
           | Some shell \<Rightarrow>
               (let remaining = drop (lastReadIndex shell) (outputLines shell);
                    shell1 = shell\<lparr>lastReadIndex := length (outputLines shell),
                                   signals := signals shell @ [SIGTERM]\<rparr>;
                    shells1 = foldl (\<lambda>m ev. deliver ev m) (AList.update bid shell1 shells) graceEvents;
                    shell2 = (case map_of shells1 bid of Some sh \<Rightarrow> sh | None \<Rightarrow> shell1);
                    shell3 = (if exitCode shell2 = None
                              then shell2\<lparr>signals := signals shell2 @ [SIGKILL]\<rparr> else shell2);
                    shell4 = shell3\<lparr>status := Terminated\<rparr>
                in (\<lparr>success = True,
                     tr_content =
                       formatBashOutput (join [LF] remaining) []
                         (case exitCode shell4 of Some c \<Rightarrow> c | None \<Rightarrow> 0) (Some bid),
                     error = None\<rparr>,
                    Some shell4, AList.delete bid shells1))))"

subsection \<open>Jobs for the scenarios\<close>

definition demoArgs :: "(string \<times> json) list" where
  "demoArgs = [(''bash_id'', JStr ''abc12345'')]"

text \<open>A job whose process printed \<open>a\<close>, then \<open>b\<close>, then exited with code 0.\<close>

definition demoJob :: shells where
  "demoJob =
     foldl (\<lambda>m ev. deliver ev m) (snd (bashStart ''abc12345'' ''echo a; echo b'' 0 []))
       [(''abc12345'', Stdout (''a'' @ [LF])), (''abc12345'', Stdout (''b'' @ [LF])),
        (''abc12345'', Close (Some 0))]"

text \<open>A job that runs and has printed \<open>ready\<close>; on termination it prints \<open>bye\<close> and exits.\<close>

definition demoServer :: shells where
  "demoServer =
     deliver (''abc12345'', Stdout (''ready'' @ [LF]))
       (snd (bashStart ''abc12345'' ''serve'' 0 []))"

definition demoGrace :: "(string \<times> procEvent) list" where
  "demoGrace = [(''abc12345'', Stdout (''bye'' @ [LF])), (''abc12345'', Close (Some 0))]"

text \<open>A regular-expression builtin that rejects an unbalanced parenthesis.\<close>

definition demoRe :: "string \<Rightarrow> (string \<Rightarrow> bool) option" where
  "demoRe s = (if s = ''('' then None else Some (\<lambda>l. take (length s) l = s))"

definition demoShell :: backgroundShell where
  "demoShell =
     \<lparr>bashId = ''abc12345'', command = ''echo a; echo b'', startTime = 0, status = Completed,
      exitCode = Some 0, outputLines = [''a'', ''b''], lastReadIndex = 0, signals = []\<rparr>"

definition demoServerShell :: backgroundShell where
  "demoServerShell =
     \<lparr>bashId = ''abc12345'', command = ''serve'', startTime = 0, status = Running,
      exitCode = None, outputLines = [''ready''], lastReadIndex = 0, signals = []\<rparr>"

definition footer :: string where
  "footer = ''[bash_id]:'' @ [LF] @ ''abc12345''"

section \<open>Properties of the execution loop\<close>

subsection \<open>The tool loop\<close>








subsection \<open>Compaction keeps the leading turn and the user turns\<close>


lemma map_nth_filter_idx:
  "map ((!) xs) (filter (\<lambda>i. P (xs ! i)) [0..<length xs]) = filter P xs"
proof -
  have "filter P (map ((!) xs) [0..<length xs]) = map ((!) xs) (filter (P \<circ> (!) xs) [0..<length xs])"
    by (rule filter_map)
  then show ?thesis by (simp add: map_nth comp_def)
qed

lemma userIdx_Cons: "userIdx (h # t) = map Suc (filter (\<lambda>i. role (t ! i) = User) [0..<length t])"
proof -
  have "[0..<length (h # t)] = 0 # map Suc [0..<length t]"
    by (simp add: upt_conv_Cons map_Suc_upt del: upt_Suc)
  then show ?thesis by (simp add: userIdx_def filter_map comp_def)
qed

lemma map_nth_userIdx: "map ((!) ms) (userIdx ms) = filter isUser (tl ms)"
proof (cases ms)
  case Nil
  then show ?thesis by (simp add: userIdx_def)
next
  case (Cons h t)
  have "map ((!) (h # t)) (userIdx (h # t)) = map ((!) t) (filter (\<lambda>i. role (t ! i) = User) [0..<length t])"
    by (simp add: userIdx_Cons comp_def)
  then show ?thesis using Cons map_nth_filter_idx[of t isUser] by simp
qed

lemma userIdx_user: "i \<in> set (userIdx ms) \<Longrightarrow> role (ms ! i) = User"
  by (simp add: userIdx_def)

lemma summarizeSegments_users:
  "summarizeSegments opts ms idxs i acc w = (Inr new, w') \<Longrightarrow>
   \<forall>k \<in> set idxs. role (ms ! k) = User \<Longrightarrow>
   \<exists>t. new = acc @ t \<and> filter isUser t = map ((!) ms) idxs"
proof (induction idxs arbitrary: i acc w)
  case Nil
  then show ?case by simp
next
  case (Cons cur rest)
  have u: "role (ms ! cur) = User" and r: "\<forall>k \<in> set rest. role (ms ! k) = User"
    using Cons.prems(2) by simp_all
  from Cons.prems(1) obtain acc' w1 where
    rec: "summarizeSegments opts ms rest (i + 1) acc' w1 = (Inr new, w')" and
    acc': "\<exists>s. acc' = acc @ [ms ! cur] @ s \<and> filter isUser s = []"
    by (auto simp: Let_def isSummary_def plainMessage_def split: if_splits prod.splits sum.splits)
  from Cons.IH[OF rec r] obtain t where t: "new = acc' @ t" "filter isUser t = map ((!) ms) rest"
    by blast
  from acc' obtain s where s: "acc' = acc @ [ms ! cur] @ s" "filter isUser s = []" by blast
  show ?case
    by (rule exI[of _ "[ms ! cur] @ s @ t"]) (simp add: t s u)
qed


text \<open>
  Claim C2.  Whatever \<open>summarizeMessagesIfNeeded\<close> does (skip, no trigger, compaction, or
  a fault of the summary call), the user turns of the history afterwards are the user turns
  before, unmodified and in the same order, and the leading turn is the same turn.
\<close>

theorem C2_compaction_keeps_user_turns:
  assumes "summarizeMessagesIfNeeded opts a w = (res, a', w')"
  shows "filter isUser (messages a') = filter isUser (messages a) \<and>
         take 1 (messages a') = take 1 (messages a)"
proof (cases "skipNextTokenCheck a \<or> \<not> shouldSummarize opts a \<or> userIdx (messages a) = []")
  case True
  then show ?thesis
    using assms by (auto simp: summarizeMessagesIfNeeded_def split: if_splits)
next
  case False
  obtain r w1 where
    seg: "summarizeSegments opts (messages a) (userIdx (messages a)) 0 [messages a ! 0] w = (r, w1)"
    by (cases "summarizeSegments opts (messages a) (userIdx (messages a)) 0 [messages a ! 0] w")
  show ?thesis
  proof (cases r)
    case (Inl e)
    then show ?thesis
      using assms False seg by (auto simp: summarizeMessagesIfNeeded_def)
  next
    case (Inr new)
    from False obtain h t where ht: "messages a = h # t"
      by (cases "messages a") (auto simp: userIdx_def)
    have a': "messages a' = new"
      using assms False seg Inr by (auto simp: summarizeMessagesIfNeeded_def)
    from summarizeSegments_users[OF seg[unfolded Inr]] userIdx_user
    obtain s where
      s: "new = [messages a ! 0] @ s"
         "filter isUser s = map ((!) (messages a)) (userIdx (messages a))"
      by blast
    then show ?thesis
      using a' ht map_nth_userIdx[of "messages a"] by simp
  qed
qed

subsection \<open>Compacting a compacted history\<close>












lemma shouldSummarize_skip [simp]:
  "shouldSummarize opts (a\<lparr>skipNextTokenCheck := b\<rparr>) = shouldSummarize opts a"
  by (simp add: shouldSummarize_def)




lemma createSummary_answering:
  "ms \<noteq> [] \<Longrightarrow> createSummary (demoOpts (answeringLlm txt') n lim) ms i w = (Inr txt', w)"
  by (simp add: createSummary_def demoOpts_def answeringLlm_def)

lemma userIdx_demoHistory: "userIdx demoHistory = [1]"
  by (simp add: userIdx_def demoHistory_def plainMessage_def upt_rec)


lemma demo_should: "shouldSummarize (demoOpts backend 3 0) (demoAgent demoHistory b)"
  by (simp add: shouldSummarize_def demoOpts_def demoAgent_def estimateTokensFallback_def demoHistory_def plainMessage_def)

lemma demo_segments:
  "summarizeSegments (demoOpts (answeringLlm ''did things'') 3 0) demoHistory [1] 0 [plainMessage System ''sys''] ()
     = (Inr demoCompacted, ())"
proof -
  have ex: "slice demoHistory 2 (length demoHistory) = [plainMessage Assistant ''a1'', plainMessage Tool ''t1'']"
    by (simp add: slice_def demoHistory_def)
  have ns: "\<not> isSummary [plainMessage Assistant ''a1'', plainMessage Tool ''t1'']"
    by (simp add: isSummary_def)
  have k: "demoHistory ! 1 = plainMessage User ''hi''" by (simp add: demoHistory_def)
  show ?thesis
    by (simp add: ex ns k createSummary_answering demoCompacted_def Let_def del: One_nat_def)
qed

lemma demo_compacts:
  "summarizeMessagesIfNeeded (demoOpts (answeringLlm ''did things'') 3 0) (demoAgent demoHistory False) ()
     = (Inr (), (demoAgent demoCompacted True), ())"
proof -
  have h0: "demoHistory ! 0 = plainMessage System ''sys''" by (simp add: demoHistory_def)
  have m: "messages (demoAgent demoHistory False) = demoHistory" by (simp add: demoAgent_def)
  have s: "\<not> skipNextTokenCheck (demoAgent demoHistory False)" by (simp add: demoAgent_def)
  show ?thesis
    unfolding summarizeMessagesIfNeeded_def
    by (simp only: m s demo_should userIdx_demoHistory h0 demo_segments) (simp add: demoAgent_def)
qed

theorem C2_compaction_keeps_user_turns_witness:
  "summarizeMessagesIfNeeded (demoOpts (answeringLlm ''did things'') 3 0)
      (demoAgent demoHistory False) () = (Inr (), demoAgent demoCompacted True, ()) \<and>
   messages (demoAgent demoCompacted True) \<noteq> messages (demoAgent demoHistory False) \<and>
   filter isUser (messages (demoAgent demoCompacted True)) = [plainMessage User ''hi''] \<and>
   filter isUser (messages (demoAgent demoHistory False)) = [plainMessage User ''hi''] \<and>
   take 1 (messages (demoAgent demoCompacted True)) = [plainMessage System ''sys'']"
proof -
  have "filter isUser (messages (demoAgent demoHistory False)) = [plainMessage User ''hi'']"
    by (simp add: demoAgent_def demoHistory_def plainMessage_def)
  moreover have "take 1 (messages (demoAgent demoHistory False)) = [plainMessage System ''sys'']"
    by (simp add: demoAgent_def demoHistory_def)
  moreover have "messages (demoAgent demoCompacted True) \<noteq> messages (demoAgent demoHistory False)"
    by (simp add: demoAgent_def demoHistory_def demoCompacted_def)
  ultimately show ?thesis
    using C2_compaction_keeps_user_turns[OF demo_compacts] demo_compacts by simp
qed




subsection \<open>The step budget\<close>













section \<open>Properties of the framing\<close>

subsection \<open>The client's parser\<close>

lemma take_append_le: "k \<le> length ys \<Longrightarrow> take k (ys @ c) = take k ys"
  by simp

lemma indexOf_append:
  "indexOf b n = Some i \<Longrightarrow> indexOf (b @ c) n = Some i"
proof (induction b arbitrary: i)
  case Nil
  then show ?case by (cases c) (simp_all split: if_splits)
next
  case (Cons x xs)
  show ?case
  proof (cases "take (length n) (x # xs) = n")
    case True
    then have "length (take (length n) (x # xs)) = length n" by simp
    then have "length n \<le> length (x # xs)" by (simp only: length_take)
    then have "take (length n) ((x # xs) @ c) = take (length n) (x # xs)"
      by (rule take_append_le)
    then have "take (length n) ((x # xs) @ c) = n" using True by simp
    then show ?thesis using Cons.prems True by simp
  next
    case False
    then obtain j where j: "indexOf xs n = Some j" "i = Suc j"
      using Cons.prems by auto
    from indexOf_bound[OF j(1)] have "length n \<le> length (x # xs)" by simp
    then have "take (length n) ((x # xs) @ c) = take (length n) (x # xs)"
      by (rule take_append_le)
    then have "take (length n) ((x # xs) @ c) \<noteq> n" using False by simp
    then show ?thesis using Cons.IH[OF j(1)] j(2) by simp
  qed
qed

lemma clientDrain_append:
  "clientDrain (b @ c) =
     (case clientDrain b of (o1, r1) \<Rightarrow>
        (case clientDrain (r1 @ c) of (o2, r2) \<Rightarrow> (o1 @ o2, r2)))"
proof (induction b rule: clientDrain.induct)
  case (1 buffer)
  show ?case
  proof (cases "indexOf buffer CRLFCRLF")
    case None
    then have "clientDrain buffer = ([], buffer)" by (simp add: clientDrain.simps)
    then show ?thesis by simp
  next
    case (Some h)
    have hb: "h + 4 \<le> length buffer"
      using indexOf_bound[OF Some] by (simp add: CRLFCRLF_def)
    have ia: "indexOf (buffer @ c) CRLFCRLF = Some h" by (rule indexOf_append[OF Some])
    have th: "take h (buffer @ c) = take h buffer" using hb by simp
    show ?thesis
    proof (cases "execContentLength (take h buffer)")
      case None
      have l: "clientDrain buffer = clientDrain (drop (h + 4) buffer)"
        using Some None by (subst clientDrain.simps) simp
      have r: "clientDrain (buffer @ c) = clientDrain (drop (h + 4) buffer @ c)"
        using ia th None hb by (subst clientDrain.simps) simp
      show ?thesis using "1.IH"(1)[OF Some None] l r by simp
    next
      case (Some ds)
      note ds = Some
      let ?e = "h + 4 + readNat ds"
      show ?thesis
      proof (cases "length buffer < ?e")
        case True
        then have "clientDrain buffer = ([], buffer)"
          using \<open>indexOf buffer CRLFCRLF = Some h\<close> ds by (subst clientDrain.simps) (simp add: Let_def)
        then show ?thesis by simp
      next
        case False
        obtain os rest where d: "clientDrain (drop ?e buffer) = (os, rest)"
          by (cases "clientDrain (drop ?e buffer)")
        have l: "clientDrain buffer = (slice buffer (h + 4) ?e # os, rest)"
          using \<open>indexOf buffer CRLFCRLF = Some h\<close> ds False d
          by (subst clientDrain.simps) (simp add: Let_def)
        have s: "slice (buffer @ c) (h + 4) ?e = slice buffer (h + 4) ?e"
          using False by (simp add: slice_def)
        have r: "clientDrain (buffer @ c) =
                 (case clientDrain (drop ?e buffer @ c) of (os', rest') \<Rightarrow> (slice buffer (h + 4) ?e # os', rest'))"
          using ia th ds False s by (subst clientDrain.simps) (simp add: Let_def)
        have ih: "clientDrain (drop ?e buffer @ c) =
           (case clientDrain (rest @ c) of (o2, r2) \<Rightarrow> (os @ o2, r2))"
          using "1.IH"(2)[OF \<open>indexOf buffer CRLFCRLF = Some h\<close> ds refl refl False] d by simp
        show ?thesis using l r ih by (simp split: prod.splits)
      qed
    qed
  qed
qed

lemma digit_cases: "d < 10 \<Longrightarrow> d \<in> {0, 1, 2, 3, 4, 5, 6, 7, 8, 9::nat}"
  by auto

lemma digitChar_isDigit: "d < 10 \<Longrightarrow> isDigit (digitChar d)"
  using digit_cases[of d] by (auto simp: digitChar_def isDigit_def)

lemma digitValue_digitChar: "d < 10 \<Longrightarrow> digitValue (digitChar d) = d"
  using digit_cases[of d] by (auto simp: digitChar_def digitValue_def)

lemma showNat_digits: "\<forall>c \<in> set (showNat n). isDigit c"
proof (induction n rule: showNat.induct)
  case (1 n)
  show ?case
  proof (cases "n < 10")
    case True
    then show ?thesis by (subst showNat.simps) (simp add: digitChar_isDigit)
  next
    case False
    then show ?thesis using 1 by (subst showNat.simps) (simp add: digitChar_isDigit)
  qed
qed

lemma showNat_nonempty: "showNat n \<noteq> []"
  by (subst showNat.simps) simp

lemma readNat_snoc: "readNat (ds @ [c]) = 10 * readNat ds + digitValue c"
  by (simp add: readNat_def)

lemma readNat_showNat: "readNat (showNat n) = n"
proof (induction n rule: showNat.induct)
  case (1 n)
  show ?case
  proof (cases "n < 10")
    case True
    then show ?thesis by (subst showNat.simps) (simp add: readNat_def digitValue_digitChar)
  next
    case False
    then have "readNat (showNat (n div 10)) = n div 10" using 1 by simp
    then show ?thesis using False
      by (subst showNat.simps) (simp add: readNat_snoc digitValue_digitChar)
  qed
qed

lemma isDigit_not_CR: "isDigit c \<Longrightarrow> c \<noteq> CR"
  by (auto simp: isDigit_def)

lemma whiteSpaces_heads: "\<forall>p \<in> set whiteSpaces. p \<noteq> [] \<and> \<not> isDigit (hd p)"
  by (simp add: whiteSpaces_def isDigit_def)

lemma leadingSpace_digit:
  assumes "isDigit d"
  shows "leadingSpace (d # s) = None"
proof -
  have "take (length p) (d # s) \<noteq> p" if "p \<in> set whiteSpaces" for p
  proof (cases p)
    case Nil
    then show ?thesis using whiteSpaces_heads that by auto
  next
    case (Cons h t)
    then have "\<not> isDigit h" using whiteSpaces_heads that by auto
    then have "h \<noteq> d" using assms by auto
    then show ?thesis using Cons by simp
  qed
  then have "find (\<lambda>p. take (length p) (d # s) = p) whiteSpaces = None"
    by (simp add: find_None_iff)
  then show ?thesis by (simp add: leadingSpace_def)
qed

lemma skipSpaces_digit: "isDigit d \<Longrightarrow> skipSpaces (d # s) = d # s"
  by (subst skipSpaces.simps) (simp add: leadingSpace_digit)

lemma leadingSpace_blank: "leadingSpace (CHR 0x20 # s) = Some 1"
  by (simp add: leadingSpace_def whiteSpaces_def)

lemma skipSpaces_blank_digits:
  "ds \<noteq> [] \<Longrightarrow> \<forall>c \<in> set ds. isDigit c \<Longrightarrow> skipSpaces (CHR 0x20 # ds) = ds"
  by (subst skipSpaces.simps) (cases ds; simp add: leadingSpace_blank skipSpaces_digit)

lemma matchContentLength_header:
  assumes "ds \<noteq> []" "\<forall>c \<in> set ds. isDigit c"
  shows "matchContentLength (''Content-Length: '' @ ds) = Some ds"
proof -
  have "map toLower (take 15 (''Content-Length: '' @ ds)) = ''content-length:''"
    by (simp add: toLower_def)
  moreover have "skipSpaces (drop 15 (''Content-Length: '' @ ds)) = ds"
    using skipSpaces_blank_digits[OF assms] by simp
  moreover have "takeWhile isDigit ds = ds" using assms(2) by (simp add: takeWhile_eq_all_conv)
  ultimately show ?thesis using assms(1) by (simp only: matchContentLength_def Let_def if_True if_False) simp
qed

lemma execContentLength_match:
  "matchContentLength s = Some ds \<Longrightarrow> execContentLength s = Some ds"
  by (cases s) (simp_all add: matchContentLength_def)

lemma execContentLength_header:
  "execContentLength (''Content-Length: '' @ showNat n) = Some (showNat n)"
proof -
  have "matchContentLength (''Content-Length: '' @ showNat n) = Some (showNat n)"
    by (rule matchContentLength_header[OF showNat_nonempty showNat_digits])
  then show ?thesis by (rule execContentLength_match)
qed

lemma indexOf_header:
  "CR \<notin> set p \<Longrightarrow> indexOf (p @ CRLFCRLF @ rest) CRLFCRLF = Some (length p)"
proof (induction p)
  case Nil
  then show ?case by (simp add: CRLFCRLF_def)
next
  case (Cons x p)
  then have "x \<noteq> CR" by auto
  then have "take (length CRLFCRLF) ((x # p) @ CRLFCRLF @ rest) \<noteq> CRLFCRLF"
    by (simp add: CRLFCRLF_def)
  then show ?case using Cons by simp
qed

lemma frame_header: "frame body = header (length body) @ CRLFCRLF @ body"
  by (simp add: frame_def header_def)

lemma header_no_CR: "CR \<notin> set (header n)"
proof -
  have "CR \<notin> set (showNat n)" using showNat_digits[of n] isDigit_not_CR by blast
  then show ?thesis by (simp add: header_def)
qed

lemma frame_parts:
  "\<exists>pre. frame body @ rest = pre @ body @ rest \<and>
         length pre = length (header (length body)) + 4 \<and>
         take (length (header (length body))) pre = header (length body)"
  by (rule exI[of _ "header (length body) @ CRLFCRLF"]) (simp add: frame_header CRLFCRLF_def)

lemma clientDrain_frame:
  "clientDrain (frame body @ rest) =
     (case clientDrain rest of (os, r) \<Rightarrow> (body # os, r))"
proof -
  let ?h = "length (header (length body))"
  have buf: "frame body @ rest = header (length body) @ CRLFCRLF @ (body @ rest)"
    by (simp add: frame_header)
  have i: "indexOf (frame body @ rest) CRLFCRLF = Some ?h"
    unfolding buf by (rule indexOf_header[OF header_no_CR])
  from frame_parts[of body rest] obtain pre where
    pre: "frame body @ rest = pre @ body @ rest" "length pre = ?h + 4" "take ?h pre = header (length body)"
    by blast
  have t: "take ?h (frame body @ rest) = header (length body)"
    unfolding pre(1) using pre(2,3) by simp
  have e: "execContentLength (header (length body)) = Some (showNat (length body))"
    unfolding header_def by (rule execContentLength_header)
  have d: "drop (?h + 4 + length body) (frame body @ rest) = rest"
    unfolding pre(1) using pre(2) by simp
  have s: "slice (frame body @ rest) (?h + 4) (?h + 4 + length body) = body"
    unfolding pre(1) slice_def using pre(2) by simp
  have l: "\<not> length (frame body @ rest) < ?h + 4 + length body"
    unfolding pre(1) using pre(2) by simp
  show ?thesis
    by (subst clientDrain.simps) (simp only: i t e option.case Let_def readNat_showNat l if_False d s)
qed

lemma clientDrain_Nil: "clientDrain [] = ([], [])"
  by (subst clientDrain.simps) (simp add: CRLFCRLF_def)

lemma clientDrain_frames: "clientDrain (concat (map frame bodies)) = (bodies, [])"
  by (induction bodies) (simp_all add: clientDrain_Nil clientDrain_frame)

lemma clientDrain_drained: "clientDrain (snd (clientDrain b)) = ([], snd (clientDrain b))"
proof -
  obtain o1 r1 where a: "clientDrain b = (o1, r1)" by (cases "clientDrain b")
  obtain o2 r2 where b: "clientDrain r1 = (o2, r2)" by (cases "clientDrain r1")
  from clientDrain_append[of b "[]"] a b have "(o1, r1) = (o1 @ o2, r2)" by simp
  then show ?thesis using a b by simp
qed

lemma clientFeed_drain:
  "clientDrain b = ([], b) \<Longrightarrow> clientFeed b cs = clientDrain (b @ concat cs)"
proof (induction cs arbitrary: b)
  case Nil
  then show ?case by simp
next
  case (Cons c cs)
  obtain o1 r1 where a: "clientDrain (b @ c) = (o1, r1)" by (cases "clientDrain (b @ c)")
  have dr: "clientDrain r1 = ([], r1)" using clientDrain_drained[of "b @ c"] a by simp
  have "clientDrain ((b @ c) @ concat cs) = (case clientDrain (r1 @ concat cs) of (o2, r2) \<Rightarrow> (o1 @ o2, r2))"
    using clientDrain_append[of "b @ c" "concat cs"] a by simp
  then show ?case using Cons.IH[OF dr] a by (simp add: clientOnData_def)
qed

lemma client_roundtrip:
  "concat chunks = concat (map frame bodies) \<Longrightarrow> clientFeed [] chunks = (bodies, [])"
  using clientFeed_drain[OF clientDrain_Nil, of chunks] by (simp add: clientDrain_frames)

subsection \<open>The server's parser\<close>

lemma serverDrain_append:
  "serverDrain (b @ c) =
     (case serverDrain b of (o1, r1) \<Rightarrow>
        (case serverDrain (r1 @ c) of (o2, r2) \<Rightarrow> (o1 @ o2, r2)))"
proof (induction b rule: serverDrain.induct)
  case (1 buffer)
  show ?case
  proof (cases "indexOf buffer CRLFCRLF")
    case None
    then have "serverDrain buffer = ([], buffer)" by (simp add: serverDrain.simps)
    then show ?thesis by simp
  next
    case (Some h)
    note h = Some
    have hb: "h + 4 \<le> length buffer"
      using indexOf_bound[OF Some] by (simp add: CRLFCRLF_def)
    have ia: "indexOf (buffer @ c) CRLFCRLF = Some h" by (rule indexOf_append[OF Some])
    have th: "take h (buffer @ c) = take h buffer" using hb by simp
    have dh: "drop (h + 4) (buffer @ c) = drop (h + 4) buffer @ c" using hb by simp
    show ?thesis
    proof (cases "execContentLength (take h buffer)")
      case None
      have l: "serverDrain buffer = serverDrain (drop (h + 4) buffer)"
        using h None by (subst serverDrain.simps) simp
      have r: "serverDrain (buffer @ c) = serverDrain (drop (h + 4) buffer @ c)"
        using ia th None hb by (subst serverDrain.simps) simp
      show ?thesis using "1.IH"(1)[OF h None] l r by simp
    next
      case (Some ds)
      note ds = Some
      let ?e = "h + 4 + readNat ds"
      show ?thesis
      proof (cases "MAX_CONTENT_LENGTH_BYTES < readNat ds")
        case True
        obtain os rest where d: "serverDrain (drop (h + 4) buffer) = (os, rest)"
          by (cases "serverDrain (drop (h + 4) buffer)")
        have l: "serverDrain buffer = (OnError (''Invalid Content-Length: '' @ ds) # os, rest)"
          using h ds True d by (subst serverDrain.simps) simp
        have r: "serverDrain (buffer @ c) =
                 (case serverDrain (drop (h + 4) buffer @ c) of
                    (os', rest') \<Rightarrow> (OnError (''Invalid Content-Length: '' @ ds) # os', rest'))"
          using ia th ds True hb by (subst serverDrain.simps) simp
        have ih: "serverDrain (drop (h + 4) buffer @ c) =
           (case serverDrain (rest @ c) of (o2, r2) \<Rightarrow> (os @ o2, r2))"
          using "1.IH"(2)[OF h ds True] d by simp
        show ?thesis unfolding l r ih by (simp split: prod.splits)
      next
        case False
        note small = False
        show ?thesis
        proof (cases "length buffer < ?e")
          case True
          then have "serverDrain buffer = ([], buffer)"
            using h ds small by (subst serverDrain.simps) (simp add: Let_def)
          then show ?thesis by simp
        next
          case False
          obtain os rest where d: "serverDrain (drop ?e buffer) = (os, rest)"
            by (cases "serverDrain (drop ?e buffer)")
          have l: "serverDrain buffer = (Frame (slice buffer (h + 4) ?e) # os, rest)"
            using h ds small False d by (subst serverDrain.simps) (simp add: Let_def)
          have s: "slice (buffer @ c) (h + 4) ?e = slice buffer (h + 4) ?e"
            using False by (simp add: slice_def)
          have r: "serverDrain (buffer @ c) =
                   (case serverDrain (drop ?e buffer @ c) of
                      (os', rest') \<Rightarrow> (Frame (slice buffer (h + 4) ?e) # os', rest'))"
            using ia th ds small False s by (subst serverDrain.simps) (simp add: Let_def)
          have ih: "serverDrain (drop ?e buffer @ c) =
             (case serverDrain (rest @ c) of (o2, r2) \<Rightarrow> (os @ o2, r2))"
            using "1.IH"(3)[OF h ds small refl refl False] d by simp
          show ?thesis unfolding l r ih by (simp split: prod.splits)
        qed
      qed
    qed
  qed
qed

lemma serverDrain_length: "length (snd (serverDrain b)) \<le> length b"
proof (induction b rule: serverDrain.induct)
  case (1 buffer)
  show ?case
  proof (cases "indexOf buffer CRLFCRLF")
    case None
    then show ?thesis by (subst serverDrain.simps) simp
  next
    case (Some h)
    note h = Some
    show ?thesis
    proof (cases "execContentLength (take h buffer)")
      case None
      have "serverDrain buffer = serverDrain (drop (h + 4) buffer)"
        using h None by (subst serverDrain.simps) simp
      then show ?thesis using "1.IH"(1)[OF h None] by simp
    next
      case (Some ds)
      note ds = Some
      show ?thesis
      proof (cases "MAX_CONTENT_LENGTH_BYTES < readNat ds")
        case True
        have "snd (serverDrain buffer) = snd (serverDrain (drop (h + 4) buffer))"
          using h ds True by (subst serverDrain.simps) (simp split: prod.splits)
        then show ?thesis using "1.IH"(2)[OF h ds True] by simp
      next
        case False
        note small = False
        show ?thesis
        proof (cases "length buffer < h + 4 + readNat ds")
          case True
          then show ?thesis using h ds small by (subst serverDrain.simps) (simp add: Let_def)
        next
          case False
          have "snd (serverDrain buffer) = snd (serverDrain (drop (h + 4 + readNat ds) buffer))"
            using h ds small False by (subst serverDrain.simps) (simp add: Let_def split: prod.splits)
          then show ?thesis using "1.IH"(3)[OF h ds small refl refl False] by simp
        qed
      qed
    qed
  qed
qed

lemma serverOnData_bounded: "length (snd (serverOnData buffer chunk)) \<le> MAX_BUFFER_BYTES"
proof (cases "MAX_BUFFER_BYTES < length (buffer @ chunk)")
  case True
  then show ?thesis by (simp add: serverOnData_def)
next
  case False
  then have "snd (serverOnData buffer chunk) = snd (serverDrain (buffer @ chunk))"
    by (simp add: serverOnData_def)
  then show ?thesis using serverDrain_length[of "buffer @ chunk"] False by simp
qed

lemma serverOnData_overflow:
  "MAX_BUFFER_BYTES < length (buffer @ chunk) \<Longrightarrow>
   serverOnData buffer chunk =
     ([OnError (''JSON-RPC buffer exceeded '' @ showNat MAX_BUFFER_BYTES @ '' bytes; dropping buffer'')], [])"
  by (simp add: serverOnData_def)

lemma serverFeed_bounded:
  "length buffer \<le> MAX_BUFFER_BYTES \<Longrightarrow> length (snd (serverFeed buffer chunks)) \<le> MAX_BUFFER_BYTES"
proof (induction chunks arbitrary: buffer)
  case Nil
  then show ?case by simp
next
  case (Cons c cs)
  obtain es b1 where a: "serverOnData buffer c = (es, b1)"
    by (cases "serverOnData buffer c")
  then have "length b1 \<le> MAX_BUFFER_BYTES" using serverOnData_bounded[of buffer c] by simp
  then have "length (snd (serverFeed b1 cs)) \<le> MAX_BUFFER_BYTES" by (rule Cons.IH)
  moreover have "snd (serverFeed buffer (c # cs)) = snd (serverFeed b1 cs)"
    using a by (cases "serverFeed b1 cs") simp
  ultimately show ?case by simp
qed

lemma serverDrain_frame:
  assumes "length body \<le> MAX_CONTENT_LENGTH_BYTES"
  shows "serverDrain (frame body @ rest) =
     (case serverDrain rest of (os, r) \<Rightarrow> (Frame body # os, r))"
proof -
  let ?h = "length (header (length body))"
  have buf: "frame body @ rest = header (length body) @ CRLFCRLF @ (body @ rest)"
    by (simp add: frame_header)
  have i: "indexOf (frame body @ rest) CRLFCRLF = Some ?h"
    unfolding buf by (rule indexOf_header[OF header_no_CR])
  from frame_parts[of body rest] obtain pre where
    pre: "frame body @ rest = pre @ body @ rest" "length pre = ?h + 4" "take ?h pre = header (length body)"
    by blast
  have t: "take ?h (frame body @ rest) = header (length body)"
    unfolding pre(1) using pre(2,3) by simp
  have e: "execContentLength (header (length body)) = Some (showNat (length body))"
    unfolding header_def by (rule execContentLength_header)
  have d: "drop (?h + 4 + length body) (frame body @ rest) = rest"
    unfolding pre(1) using pre(2) by simp
  have s: "slice (frame body @ rest) (?h + 4) (?h + 4 + length body) = body"
    unfolding pre(1) slice_def using pre(2) by simp
  have l: "\<not> length (frame body @ rest) < ?h + 4 + length body"
    unfolding pre(1) using pre(2) by simp
  have m: "\<not> MAX_CONTENT_LENGTH_BYTES < length body" using assms by simp
  show ?thesis
    by (subst serverDrain.simps)
       (simp only: i t e option.case Let_def readNat_showNat l m if_False d s)
qed

lemma serverDrain_Nil: "serverDrain [] = ([], [])"
  by (subst serverDrain.simps) (simp add: CRLFCRLF_def)

lemma serverDrain_frames:
  "\<forall>b \<in> set bodies. length b \<le> MAX_CONTENT_LENGTH_BYTES \<Longrightarrow>
   serverDrain (concat (map frame bodies)) = (map Frame bodies, [])"
  by (induction bodies) (simp_all add: serverDrain_Nil serverDrain_frame)

lemma serverDrain_drained: "serverDrain (snd (serverDrain b)) = ([], snd (serverDrain b))"
proof -
  obtain o1 r1 where a: "serverDrain b = (o1, r1)" by (cases "serverDrain b")
  obtain o2 r2 where b: "serverDrain r1 = (o2, r2)" by (cases "serverDrain r1")
  from serverDrain_append[of b "[]"] a b have "(o1, r1) = (o1 @ o2, r2)" by simp
  then show ?thesis using a b by simp
qed

lemma serverFeed_drain:
  "serverDrain b = ([], b) \<Longrightarrow> withinCeiling b cs \<Longrightarrow> serverFeed b cs = serverDrain (b @ concat cs)"
proof (induction cs arbitrary: b)
  case Nil
  then show ?case by simp
next
  case (Cons c cs)
  from Cons.prems(2) have le: "\<not> MAX_BUFFER_BYTES < length (b @ c)"
    and wc: "withinCeiling (snd (serverOnData b c)) cs" by simp_all
  have od: "serverOnData b c = serverDrain (b @ c)" using le by (simp add: serverOnData_def)
  obtain o1 r1 where a: "serverDrain (b @ c) = (o1, r1)" by (cases "serverDrain (b @ c)")
  have dr: "serverDrain r1 = ([], r1)" using serverDrain_drained[of "b @ c"] a by simp
  have "serverDrain ((b @ c) @ concat cs) = (case serverDrain (r1 @ concat cs) of (o2, r2) \<Rightarrow> (o1 @ o2, r2))"
    using serverDrain_append[of "b @ c" "concat cs"] a by simp
  then show ?case using Cons.IH[OF dr] wc a od by simp
qed

lemma withinCeiling_total:
  "length (b @ concat cs) \<le> MAX_BUFFER_BYTES \<Longrightarrow> withinCeiling b cs"
proof (induction cs arbitrary: b)
  case Nil
  then show ?case by simp
next
  case (Cons c cs)
  have le: "length (b @ c) \<le> MAX_BUFFER_BYTES" using Cons.prems by simp
  then have "snd (serverOnData b c) = snd (serverDrain (b @ c))" by (simp add: serverOnData_def)
  then have "length (snd (serverOnData b c)) \<le> length (b @ c)"
    using serverDrain_length[of "b @ c"] by simp
  then have "length (snd (serverOnData b c) @ concat cs) \<le> MAX_BUFFER_BYTES"
    using Cons.prems by simp
  then show ?case using Cons.IH le by simp
qed

lemma server_roundtrip:
  "concat chunks = concat (map frame bodies) \<Longrightarrow>
   \<forall>b \<in> set bodies. length b \<le> MAX_CONTENT_LENGTH_BYTES \<Longrightarrow>
   withinCeiling [] chunks \<Longrightarrow>
   serverFeed [] chunks = (map Frame bodies, [])"
  using serverFeed_drain[OF serverDrain_Nil, of chunks] by (simp add: serverDrain_frames)

subsection \<open>Round trip and ceiling\<close>

lemma indexOf_no_CR: "CR \<notin> set b \<Longrightarrow> indexOf b CRLFCRLF = None"
proof (induction b)
  case Nil
  then show ?case by (simp add: CRLFCRLF_def)
next
  case (Cons x xs)
  then have "x \<noteq> CR" by auto
  then have "take (length CRLFCRLF) (x # xs) \<noteq> CRLFCRLF" by (simp add: CRLFCRLF_def)
  then show ?case using Cons by simp
qed

lemma clientDrain_no_CR: "CR \<notin> set b \<Longrightarrow> clientDrain b = ([], b)"
  by (subst clientDrain.simps) (simp add: indexOf_no_CR)

lemma serverDrain_no_CR: "CR \<notin> set b \<Longrightarrow> serverDrain b = ([], b)"
  by (subst serverDrain.simps) (simp add: indexOf_no_CR)

text \<open>
  Claim C4, as amended.  For every list of messages and every partition of the
  concatenated frames into chunks, the client's parser hands exactly the messages, in
  order, to \<open>JSON.parse\<close> and ends with an empty buffer.  The server's parser does so when
  every body has at most \<open>MAX_CONTENT_LENGTH_BYTES\<close> bytes and no delivery makes its
  buffer exceed \<open>MAX_BUFFER_BYTES\<close>, which holds whenever the whole stream has at most
  that many bytes.
\<close>

theorem C4_framing_roundtrip:
  assumes "concat chunks = concat (map frame bodies)"
  shows "clientFeed [] chunks = (bodies, []) \<and>
         ((\<forall>b \<in> set bodies. length b \<le> MAX_CONTENT_LENGTH_BYTES) \<and> withinCeiling [] chunks \<longrightarrow>
            serverFeed [] chunks = (map Frame bodies, [])) \<and>
         (length (concat chunks) \<le> MAX_BUFFER_BYTES \<longrightarrow> withinCeiling [] chunks)"
  using client_roundtrip[OF assms] server_roundtrip[OF assms] withinCeiling_total[of "[]" chunks]
  by simp

lemma split_chunk: "take n xs @ drop n xs @ ys = xs @ ys"
  by (simp add: append_assoc[symmetric] del: append_assoc)

lemma demoChunks_stream: "concat demoChunks = concat (map frame demoBodies)"
  by (simp add: demoChunks_def demoBodies_def split_chunk)

lemma demoChunks_length: "length (concat demoChunks) = 49"
  unfolding demoChunks_stream
  by (simp add: demoBodies_def frame_def showNat.simps digitChar_def CRLFCRLF_def)

theorem C4_framing_roundtrip_witness:
  "concat demoChunks = concat (map frame demoBodies) \<and>
   length ''{}'' \<le> MAX_CONTENT_LENGTH_BYTES \<and> length ''[1,2]'' \<le> MAX_CONTENT_LENGTH_BYTES \<and>
   length (concat demoChunks) \<le> MAX_BUFFER_BYTES \<and>
   withinCeiling [] demoChunks \<and>
   clientFeed [] demoChunks = ([''{}'', ''[1,2]''], []) \<and>
   serverFeed [] demoChunks = ([Frame ''{}'', Frame ''[1,2]''], [])"
proof -
  have l: "length (concat demoChunks) \<le> MAX_BUFFER_BYTES"
    by (simp add: demoChunks_length MAX_BUFFER_BYTES_def)
  have b: "\<forall>b \<in> set demoBodies. length b \<le> MAX_CONTENT_LENGTH_BYTES"
    by (simp add: demoBodies_def MAX_CONTENT_LENGTH_BYTES_def)
  note inst = C4_framing_roundtrip[OF demoChunks_stream]
  have w: "withinCeiling [] demoChunks"
    using inst l by simp
  have "serverFeed [] demoChunks = (map Frame demoBodies, [])"
    using inst b w by simp
  moreover have "clientFeed [] demoChunks = (demoBodies, [])"
    using inst by simp
  ultimately show ?thesis
    using l w demoChunks_stream by (simp add: demoBodies_def MAX_CONTENT_LENGTH_BYTES_def)
qed

lemma bigMessage_length: "length bigMessage = MAX_CONTENT_LENGTH_BYTES + 54"
  by (simp add: bigMessage_def jsonStr_def)

lemma bigMessage_no_CR: "CR \<notin> set bigMessage"
  by (simp add: bigMessage_def jsonStr_def)

lemma bigMessage_digits: "showNat (length bigMessage) = ''10485814''"
  by (simp add: bigMessage_length MAX_CONTENT_LENGTH_BYTES_def showNat.simps digitChar_def)

lemma serverDrain_oversized:
  assumes "MAX_CONTENT_LENGTH_BYTES < length body" "CR \<notin> set body"
  shows "serverDrain (frame body) =
     ([OnError (''Invalid Content-Length: '' @ showNat (length body))], body)"
proof -
  let ?h = "length (header (length body))"
  have buf: "frame body = header (length body) @ CRLFCRLF @ body"
    by (simp add: frame_header)
  have i: "indexOf (frame body) CRLFCRLF = Some ?h"
    unfolding buf by (rule indexOf_header[OF header_no_CR])
  have t: "take ?h (frame body) = header (length body)"
    unfolding buf by simp
  have e: "execContentLength (header (length body)) = Some (showNat (length body))"
    unfolding header_def by (rule execContentLength_header)
  have d: "drop (?h + 4) (frame body) = body"
    unfolding buf by (simp add: CRLFCRLF_def)
  show ?thesis
    by (subst serverDrain.simps)
       (simp only: i t e option.case readNat_showNat assms(1) if_True d
          serverDrain_no_CR[OF assms(2)] prod.case)
qed

text \<open>
  Claim C4 as stated fails on the server's parser for a message over its body ceiling:
  the frame of a request of \<open>MAX_CONTENT_LENGTH_BYTES + 54\<close> bytes, delivered whole, is
  answered by \<open>onError\<close>, and its body stays in the buffer unparsed.
\<close>

theorem C4_framing_roundtrip_counterexample:
  "serverFeed [] [frame bigMessage] =
     ([OnError (''Invalid Content-Length: '' @ showNat (length bigMessage))], bigMessage) \<and>
   fst (serverFeed [] [frame bigMessage]) \<noteq> [Frame bigMessage]"
proof -
  have big: "MAX_CONTENT_LENGTH_BYTES < length bigMessage"
    by (simp add: bigMessage_length)
  have "length (showNat (length bigMessage)) = 8"
    by (simp add: bigMessage_digits)
  then have "length (frame bigMessage) = 16 + 8 + 4 + length bigMessage"
    by (simp add: frame_def CRLFCRLF_def)
  then have "length (frame bigMessage) = 16 + 8 + 4 + (MAX_CONTENT_LENGTH_BYTES + 54)"
    by (simp only: bigMessage_length)
  then have fits: "\<not> MAX_BUFFER_BYTES < length ([] @ frame bigMessage)"
    by (simp add: MAX_BUFFER_BYTES_def MAX_CONTENT_LENGTH_BYTES_def)
  have "serverOnData [] (frame bigMessage) = serverDrain (frame bigMessage)"
    using fits by (simp add: serverOnData_def)
  then have "serverFeed [] [frame bigMessage] =
     ([OnError (''Invalid Content-Length: '' @ showNat (length bigMessage))], bigMessage)"
    by (simp add: serverDrain_oversized[OF big bigMessage_no_CR])
  then show ?thesis by simp
qed

lemma length_concat_replicate: "length (concat (replicate n xs)) = n * length xs"
  by (induction n) simp_all

lemma floodChunks_length: "length (concat floodChunks) = 21037056"
  by (simp add: floodChunks_def length_concat_replicate)

lemma floodChunks_no_CR: "CR \<notin> set (concat floodChunks)"
  by (simp add: floodChunks_def)

text \<open>
  Claim C6 on the client's parser: it has no ceiling.  Whatever arrives without a carriage
  return is kept: after any such sequence of deliveries the buffer holds every byte
  received, and nothing is reported.
\<close>

theorem C6_client_buffer_unbounded:
  assumes "CR \<notin> set (concat chunks)"
  shows "clientFeed [] chunks = ([], concat chunks)"
  using clientFeed_drain[OF clientDrain_Nil, of chunks] clientDrain_no_CR[OF assms] by simp

theorem C6_client_buffer_unbounded_witness:
  "CR \<notin> set (concat floodChunks) \<and>
   clientFeed [] floodChunks = ([], concat floodChunks) \<and>
   MAX_BUFFER_BYTES < length (snd (clientFeed [] floodChunks)) \<and>
   length (snd (serverFeed [] floodChunks)) \<le> MAX_BUFFER_BYTES"
proof -
  have "clientFeed [] floodChunks = ([], concat floodChunks)"
    by (rule C6_client_buffer_unbounded[OF floodChunks_no_CR])
  moreover have "MAX_BUFFER_BYTES < length (concat floodChunks)"
    by (simp add: floodChunks_length MAX_BUFFER_BYTES_def)
  moreover have "length (snd (serverFeed [] floodChunks)) \<le> MAX_BUFFER_BYTES"
    by (rule serverFeed_bounded) simp
  ultimately show ?thesis using floodChunks_no_CR by simp
qed

section \<open>Properties of the ACP turn loop\<close>












section \<open>Properties of the background shells\<close>

lemma formatBashOutput_nonempty: "formatBashOutput out err code b \<noteq> []"
  by (simp add: formatBashOutput_def Let_def)

lemma bashOutput_poll:
  assumes "map_of args ''bash_id'' = Some (JStr bid)"
    and "\<not> truthy (map_of args ''filter_str'')"
    and "map_of shells bid = Some sh"
  shows "bashOutput compileRe args shells =
     (\<lparr>success = True,
       tr_content =
         formatBashOutput (join [LF] (drop (lastReadIndex sh) (outputLines sh))) []
           (case exitCode sh of Some c \<Rightarrow> c | None \<Rightarrow> 0) (Some bid),
       error = None\<rparr>,
      AList.update bid (sh\<lparr>lastReadIndex := length (outputLines sh)\<rparr>) shells)"
  using assms by (simp add: bashOutput_def asString_def applyFilter_def Let_def)

lemma bashOutput_bad_filter:
  assumes "map_of args ''bash_id'' = Some (JStr bid)"
    and "map_of args ''filter_str'' = Some (JStr f)"
    and "compileRe f = None"
    and "map_of shells bid = Some sh"
  shows "bashOutput compileRe args shells =
     (\<lparr>success = True,
       tr_content =
         formatBashOutput (join [LF] (drop (lastReadIndex sh) (outputLines sh))) []
           (case exitCode sh of Some c \<Rightarrow> c | None \<Rightarrow> 0) (Some bid),
       error = None\<rparr>,
      AList.update bid (sh\<lparr>lastReadIndex := length (outputLines sh)\<rparr>) shells)"
  using assms by (simp add: bashOutput_def asString_def applyFilter_def Let_def)

lemma deliver_keeps:
  assumes a: "map_of m bid = Some x"
  shows "\<exists>y. map_of (deliver ev m) bid = Some y \<and> signals y = signals x \<and>
       lastReadIndex y = lastReadIndex x"
proof (cases "map_of m (fst ev)")
  case None
  then show ?thesis using a by (simp add: deliver_def)
next
  case (Some sh)
  show ?thesis
  proof (cases "fst ev = bid")
    case True
    then have "sh = x" using Some a by simp
    then show ?thesis using Some True
      by (cases "snd ev") (simp_all add: deliver_def AList.update_conv')
  next
    case False
    then show ?thesis using Some a by (simp add: deliver_def AList.update_conv')
  qed
qed

lemma deliver_all_keeps:
  "map_of m bid = Some x \<Longrightarrow>
   \<exists>y. map_of (foldl (\<lambda>m ev. deliver ev m) m evs) bid = Some y \<and> signals y = signals x \<and>
       lastReadIndex y = lastReadIndex x"
proof (induction evs arbitrary: m x)
  case Nil
  then show ?case by simp
next
  case (Cons ev evs)
  from deliver_keeps[OF Cons.prems, of ev] obtain y where
    y: "map_of (deliver ev m) bid = Some y" "signals y = signals x" "lastReadIndex y = lastReadIndex x"
    by blast
  from Cons.IH[OF y(1)] show ?case using y by simp
qed

text \<open>
  Claim C8, as amended.  A poll without a filter returns the lines appended since the
  previous poll, joined by line feeds and passed through \<open>formatBashOutput\<close>, which adds
  the footer \<open>[bash_id]:\<close> with the job's identifier (and the exit code when it is not
  zero), and moves the job's cursor to the end of the buffer.  An immediate second poll
  carries no line: its text is \<open>formatBashOutput\<close> of the empty output, which is never the
  empty string.  A \<open>close\<close> with code 0 makes the job \<open>completed\<close> with \<open>exitCode = 0\<close>.
\<close>

theorem C8_incremental_poll:
  assumes "map_of args ''bash_id'' = Some (JStr bid)"
    and "\<not> truthy (map_of args ''filter_str'')"
    and "map_of shells bid = Some sh"
  shows "bashOutput compileRe args shells =
           (\<lparr>success = True,
             tr_content =
               formatBashOutput (join [LF] (drop (lastReadIndex sh) (outputLines sh))) []
                 (case exitCode sh of Some c \<Rightarrow> c | None \<Rightarrow> 0) (Some bid),
             error = None\<rparr>,
            AList.update bid (sh\<lparr>lastReadIndex := length (outputLines sh)\<rparr>) shells) \<and>
         bashOutput compileRe args (snd (bashOutput compileRe args shells)) =
           (\<lparr>success = True,
             tr_content =
               formatBashOutput [] [] (case exitCode sh of Some c \<Rightarrow> c | None \<Rightarrow> 0) (Some bid),
             error = None\<rparr>,
            snd (bashOutput compileRe args shells)) \<and>
         formatBashOutput [] [] (case exitCode sh of Some c \<Rightarrow> c | None \<Rightarrow> 0) (Some bid) \<noteq> [] \<and>
         onEvent (Close (Some 0)) sh = sh\<lparr>exitCode := Some 0, status := Completed\<rparr>"
proof -
  let ?sh' = "sh\<lparr>lastReadIndex := length (outputLines sh)\<rparr>"
  note first = bashOutput_poll[OF assms, of compileRe]
  have m: "map_of (AList.update bid ?sh' shells) bid = Some ?sh'"
    by (simp add: AList.update_conv')
  have second: "bashOutput compileRe args (AList.update bid ?sh' shells) =
     (\<lparr>success = True,
       tr_content =
         formatBashOutput [] [] (case exitCode sh of Some c \<Rightarrow> c | None \<Rightarrow> 0) (Some bid),
       error = None\<rparr>, AList.update bid ?sh' shells)"
    using bashOutput_poll[OF assms(1,2) m, of compileRe] by simp
  show ?thesis
    using first second formatBashOutput_nonempty by simp
qed

lemma demoJob_shell: "map_of demoJob ''abc12345'' = Some demoShell"
  by code_simp

lemma demoJob_polls:
  "tr_content (fst (bashOutput demoRe demoArgs demoJob)) = ''a'' @ [LF] @ ''b'' @ [LF] @ footer \<and>
   tr_content (fst (bashOutput demoRe demoArgs (snd (bashOutput demoRe demoArgs demoJob)))) = footer"
  by code_simp

theorem C8_incremental_poll_witness:
  "map_of demoArgs ''bash_id'' = Some (JStr ''abc12345'') \<and>
   \<not> truthy (map_of demoArgs ''filter_str'') \<and>
   map_of demoJob ''abc12345'' = Some demoShell \<and>
   status demoShell = Completed \<and> exitCode demoShell = Some 0 \<and>
   tr_content (fst (bashOutput demoRe demoArgs demoJob)) = ''a'' @ [LF] @ ''b'' @ [LF] @ footer \<and>
   lastReadIndex (the (map_of (snd (bashOutput demoRe demoArgs demoJob)) ''abc12345'')) = 2 \<and>
   tr_content (fst (bashOutput demoRe demoArgs (snd (bashOutput demoRe demoArgs demoJob)))) = footer"
proof -
  have a: "map_of demoArgs ''bash_id'' = Some (JStr ''abc12345'')"
    by (simp add: demoArgs_def)
  have f: "\<not> truthy (map_of demoArgs ''filter_str'')"
    by (simp add: demoArgs_def)
  note inst = C8_incremental_poll[OF a f demoJob_shell, of demoRe, THEN conjunct1]
  have "lastReadIndex (the (map_of (snd (bashOutput demoRe demoArgs demoJob)) ''abc12345'')) = 2"
    unfolding inst by (simp add: AList.update_conv' demoShell_def)
  then show ?thesis
    using a f demoJob_shell demoJob_polls by (simp add: demoShell_def)
qed

text \<open>
  Claim C8 as stated fails on the texts: the first poll returns \<open>a\<close>, \<open>b\<close> and the footer,
  and the second poll returns the footer, not the empty text.
\<close>

theorem C8_incremental_poll_counterexample:
  "tr_content (fst (bashOutput demoRe demoArgs demoJob)) \<noteq> ''a'' @ [LF] @ ''b'' \<and>
   tr_content (fst (bashOutput demoRe demoArgs (snd (bashOutput demoRe demoArgs demoJob)))) =
     ''[bash_id]:'' @ [LF] @ ''abc12345'' \<and>
   tr_content (fst (bashOutput demoRe demoArgs (snd (bashOutput demoRe demoArgs demoJob)))) \<noteq> []"
  by code_simp

lemma bashOutput_filter_ignored:
  assumes "map_of args ''filter_str'' = Some (JStr f)" and "compileRe f = None"
  shows "bashOutput compileRe args shells =
         bashOutput compileRe (AList.delete ''filter_str'' args) shells"
proof -
  have b: "map_of (AList.delete ''filter_str'' args) ''bash_id'' = map_of args ''bash_id''"
    by (simp add: AList.delete_conv')
  have n: "map_of (AList.delete ''filter_str'' args) ''filter_str'' = None"
    by (simp add: AList.delete_conv')
  show ?thesis
    using assms
    by (simp add: bashOutput_def b n asString_def applyFilter_def Let_def
             split: sum.splits exn.splits option.splits json.splits)
qed

text \<open>
  Claim C10.  A \<open>bash_output\<close> call whose \<open>filter_str\<close> is a string that \<open>new RegExp\<close>
  rejects is the call without \<open>filter_str\<close>: same result, same job table.  On an active
  job it succeeds, returns every line appended since the last poll, unfiltered, and
  advances the cursor.
\<close>

theorem C10_invalid_filter:
  assumes "map_of args ''filter_str'' = Some (JStr f)" and "compileRe f = None"
  shows "bashOutput compileRe args shells =
           bashOutput compileRe (AList.delete ''filter_str'' args) shells \<and>
         (map_of args ''bash_id'' = Some (JStr bid) \<and> map_of shells bid = Some sh \<longrightarrow>
            bashOutput compileRe args shells =
              (\<lparr>success = True,
                tr_content =
                  formatBashOutput (join [LF] (drop (lastReadIndex sh) (outputLines sh))) []
                    (case exitCode sh of Some c \<Rightarrow> c | None \<Rightarrow> 0) (Some bid),
                error = None\<rparr>,
               AList.update bid (sh\<lparr>lastReadIndex := length (outputLines sh)\<rparr>) shells))"
proof (intro conjI impI)
  show "bashOutput compileRe args shells =
        bashOutput compileRe (AList.delete ''filter_str'' args) shells"
    by (rule bashOutput_filter_ignored[where compileRe = compileRe and f = f, OF assms])
next
  assume "map_of args ''bash_id'' = Some (JStr bid) \<and> map_of shells bid = Some sh"
  then have a: "map_of args ''bash_id'' = Some (JStr bid)" and s: "map_of shells bid = Some sh"
    by simp_all
  show "bashOutput compileRe args shells =
      (\<lparr>success = True,
        tr_content =
          formatBashOutput (join [LF] (drop (lastReadIndex sh) (outputLines sh))) []
            (case exitCode sh of Some c \<Rightarrow> c | None \<Rightarrow> 0) (Some bid),
        error = None\<rparr>,
       AList.update bid (sh\<lparr>lastReadIndex := length (outputLines sh)\<rparr>) shells)"
    by (rule bashOutput_bad_filter[where compileRe = compileRe and f = f, OF a assms s])
qed

theorem C10_invalid_filter_witness:
  "map_of ((''filter_str'', JStr ''('') # demoArgs) ''filter_str'' = Some (JStr ''('') \<and>
   demoRe ''('' = None \<and>
   map_of ((''filter_str'', JStr ''('') # demoArgs) ''bash_id'' = Some (JStr ''abc12345'') \<and>
   map_of demoJob ''abc12345'' = Some demoShell \<and>
   bashOutput demoRe ((''filter_str'', JStr ''('') # demoArgs) demoJob =
     bashOutput demoRe demoArgs demoJob \<and>
   success (fst (bashOutput demoRe ((''filter_str'', JStr ''('') # demoArgs) demoJob)) \<and>
   tr_content (fst (bashOutput demoRe ((''filter_str'', JStr ''('') # demoArgs) demoJob)) =
     ''a'' @ [LF] @ ''b'' @ [LF] @ footer \<and>
   lastReadIndex (the (map_of (snd (bashOutput demoRe ((''filter_str'', JStr ''('') # demoArgs)
     demoJob)) ''abc12345'')) = 2"
proof -
  have a: "map_of ((''filter_str'', JStr ''('') # demoArgs) ''bash_id'' = Some (JStr ''abc12345'')"
    by (simp add: demoArgs_def)
  have f: "map_of ((''filter_str'', JStr ''('') # demoArgs) ''filter_str'' = Some (JStr ''('')"
    by simp
  have r: "demoRe ''('' = None"
    by (simp add: demoRe_def)
  note inst = C10_invalid_filter[where compileRe = demoRe and f = "''(''"
      and bid = "''abc12345''" and sh = demoShell, OF f r, of demoJob]
  have d: "AList.delete ''filter_str'' ((''filter_str'', JStr ''('') # demoArgs) = demoArgs"
    by (simp add: demoArgs_def AList.delete_eq)
  have e: "bashOutput demoRe ((''filter_str'', JStr ''('') # demoArgs) demoJob =
     bashOutput demoRe demoArgs demoJob"
    using inst[THEN conjunct1] unfolding d .
  note act = inst[THEN conjunct2, rule_format, OF conjI[OF a demoJob_shell]]
  have s: "success (fst (bashOutput demoRe ((''filter_str'', JStr ''('') # demoArgs) demoJob))"
    unfolding act by simp
  have c: "tr_content (fst (bashOutput demoRe ((''filter_str'', JStr ''('') # demoArgs) demoJob)) =
     ''a'' @ [LF] @ ''b'' @ [LF] @ footer"
    unfolding e using demoJob_polls by simp
  have l: "lastReadIndex (the (map_of (snd (bashOutput demoRe ((''filter_str'', JStr ''('') # demoArgs)
     demoJob)) ''abc12345'')) = 2"
    unfolding act by (simp add: AList.update_conv' demoShell_def)
  show ?thesis
    using a f r demoJob_shell e s c l by simp
qed

text \<open>
  Claim C9, as amended.  On an active job \<open>bash_kill\<close> takes the lines appended since the
  last poll, sends \<open>SIGTERM\<close>, waits, sends \<open>SIGKILL\<close> when no exit code has been recorded by
  then, marks the job \<open>terminated\<close>, removes it from the active set and returns the lines
  it took at the start, whatever arrived during the wait.
\<close>

theorem C9_terminate:
  assumes "map_of args ''bash_id'' = Some (JStr bid)" and "map_of shells bid = Some sh"
  shows "\<exists>final shells'.
     bashKill graceEvents args shells =
       (\<lparr>success = True,
         tr_content =
           formatBashOutput (join [LF] (drop (lastReadIndex sh) (outputLines sh))) []
             (case exitCode final of Some c \<Rightarrow> c | None \<Rightarrow> 0) (Some bid),
         error = None\<rparr>, Some final, shells') \<and>
     map_of shells' bid = None \<and>
     status final = Terminated \<and>
     signals final = signals sh @ (if exitCode final = None then [SIGTERM, SIGKILL] else [SIGTERM])"
proof -
  let ?shell1 = "sh\<lparr>lastReadIndex := length (outputLines sh), signals := signals sh @ [SIGTERM]\<rparr>"
  let ?shells1 = "foldl (\<lambda>m ev. deliver ev m) (AList.update bid ?shell1 shells) graceEvents"
  have "map_of (AList.update bid ?shell1 shells) bid = Some ?shell1"
    by (simp add: AList.update_conv')
  from deliver_all_keeps[OF this, of graceEvents] obtain shell2 where
    s2: "map_of ?shells1 bid = Some shell2" "signals shell2 = signals sh @ [SIGTERM]"
    by auto
  let ?shell3 = "if exitCode shell2 = None then shell2\<lparr>signals := signals shell2 @ [SIGKILL]\<rparr> else shell2"
  let ?final = "?shell3\<lparr>status := Terminated\<rparr>"
  have k: "bashKill graceEvents args shells =
       (\<lparr>success = True,
         tr_content =
           formatBashOutput (join [LF] (drop (lastReadIndex sh) (outputLines sh))) []
             (case exitCode ?final of Some c \<Rightarrow> c | None \<Rightarrow> 0) (Some bid),
         error = None\<rparr>, Some ?final, AList.delete bid ?shells1)"
    using assms s2(1) by (simp add: bashKill_def asString_def Let_def)
  have d: "map_of (AList.delete bid ?shells1) bid = None"
    by (simp add: AList.delete_conv')
  have st: "status ?final = Terminated" by simp
  have sg: "signals ?final = signals sh @ (if exitCode ?final = None then [SIGTERM, SIGKILL] else [SIGTERM])"
    using s2(2) by simp
  show ?thesis
    using k d st sg by blast
qed

lemma demoServer_shell: "map_of demoServer ''abc12345'' = Some demoServerShell"
  by code_simp

lemma demoServer_killed:
  "tr_content (fst (bashKill demoGrace demoArgs demoServer)) = ''ready'' @ [LF] @ footer \<and>
   map_option outputLines (fst (snd (bashKill demoGrace demoArgs demoServer))) =
     Some [''ready'', ''bye''] \<and>
   map_option signals (fst (snd (bashKill demoGrace demoArgs demoServer))) = Some [SIGTERM] \<and>
   map_option signals (fst (snd (bashKill [] demoArgs demoServer))) = Some [SIGTERM, SIGKILL] \<and>
   snd (snd (bashKill demoGrace demoArgs demoServer)) = [] \<and>
   \<not> success (fst (bashOutput demoRe demoArgs (snd (snd (bashKill demoGrace demoArgs demoServer)))))"
  by code_simp

theorem C9_terminate_witness:
  "map_of demoArgs ''bash_id'' = Some (JStr ''abc12345'') \<and>
   map_of demoServer ''abc12345'' = Some demoServerShell \<and>
   success (fst (bashKill demoGrace demoArgs demoServer)) \<and>
   tr_content (fst (bashKill demoGrace demoArgs demoServer)) = ''ready'' @ [LF] @ footer \<and>
   map_of (snd (snd (bashKill demoGrace demoArgs demoServer))) ''abc12345'' = None \<and>
   map_option signals (fst (snd (bashKill demoGrace demoArgs demoServer))) = Some [SIGTERM] \<and>
   map_option signals (fst (snd (bashKill [] demoArgs demoServer))) = Some [SIGTERM, SIGKILL]"
proof -
  have a: "map_of demoArgs ''bash_id'' = Some (JStr ''abc12345'')"
    by (simp add: demoArgs_def)
  from C9_terminate[OF a demoServer_shell, of demoGrace] obtain final shells' where
    k: "bashKill demoGrace demoArgs demoServer =
          (\<lparr>success = True,
            tr_content =
              formatBashOutput
                (join [LF] (drop (lastReadIndex demoServerShell) (outputLines demoServerShell))) []
                (case exitCode final of Some c \<Rightarrow> c | None \<Rightarrow> 0) (Some ''abc12345''),
            error = None\<rparr>, Some final, shells')"
       "map_of shells' ''abc12345'' = None"
    by (elim exE conjE)
  have "success (fst (bashKill demoGrace demoArgs demoServer))"
    unfolding k(1) by simp
  moreover have "map_of (snd (snd (bashKill demoGrace demoArgs demoServer))) ''abc12345'' = None"
    unfolding k(1) using k(2) by simp
  ultimately show ?thesis
    using a demoServer_shell demoServer_killed by simp
qed

text \<open>
  Claim C9 as stated fails on what the process prints while it shuts down: the job printed
  \<open>ready\<close>; on \<open>SIGTERM\<close> it prints \<open>bye\<close> and exits within the wait.  The returned text
  holds \<open>ready\<close> only, the line \<open>bye\<close> is in the buffer of the shell object, and the job is
  gone from the active set, so a later poll fails.
\<close>

theorem C9_terminate_counterexample:
  "tr_content (fst (bashKill demoGrace demoArgs demoServer)) =
     ''ready'' @ [LF] @ ''[bash_id]:'' @ [LF] @ ''abc12345'' \<and>
   map_option outputLines (fst (snd (bashKill demoGrace demoArgs demoServer))) =
     Some [''ready'', ''bye''] \<and>
   snd (snd (bashKill demoGrace demoArgs demoServer)) = [] \<and>
   \<not> success (fst (bashOutput demoRe demoArgs (snd (snd (bashKill demoGrace demoArgs demoServer)))))"
  by code_simp

end
